theory Spec2Isabelle
  imports Main "HOL-Library.Word"
begin

section \<open>Numbers and byte buffers\<close>

text \<open>
  A \<^verbatim>\<open>Uint8Array\<close> is a list of bytes. The JavaScript numbers the source computes with
  come from \<^verbatim>\<open>parseInt\<close> and from adding such numbers: each is \<^verbatim>\<open>NaN\<close>, an infinity, or
  an integer that is a double. \<open>nearestDouble\<close> is the conversion of a mathematical integer to
  the nearest double (ties to the even significand of 53 bits; \<^verbatim>\<open>Infinity\<close> from
  \<open>2^1024\<close> on), which both \<^verbatim>\<open>parseInt\<close> and \<^verbatim>\<open>+\<close> apply to their exact result.
\<close>

type_synonym bytes = "8 word list"

datatype jsnum = NaN | Num int | PosInf | NegInf

text \<open>The number of binary digits of a positive integer.\<close>

function bitLength :: "int \<Rightarrow> nat" where
  "bitLength n = (if n \<le> 0 then 0 else Suc (bitLength (n div 2)))"
  by pat_completeness auto
termination
  by (relation "measure nat") auto

declare bitLength.simps [simp del]

text \<open>
  The double nearest to a non-negative integer \<open>n\<close>, as an integer: below \<open>2^53\<close> it is
  \<open>n\<close>; otherwise \<open>n\<close> is cut to its 53 leading bits \<open>q\<close>, the \<open>e\<close> bits \<open>r\<close> cut off decide
  the rounding against the half \<open>h\<close>, and a tie goes to the even \<open>q\<close>.
\<close>

definition roundToDouble :: "int \<Rightarrow> int" where
  "roundToDouble n =
     (if n < 2 ^ 53 then n
      else let e = bitLength n - 53; q = n div 2 ^ e; r = n mod 2 ^ e; h = 2 ^ (e - 1)
           in (if h < r \<or> (r = h \<and> odd q) then q + 1 else q) * 2 ^ e)"

definition nearestDouble :: "int \<Rightarrow> jsnum" where
  "nearestDouble i =
     (let m = roundToDouble \<bar>i\<bar> in
      if 2 ^ 1024 \<le> m then (if i < 0 then NegInf else PosInf)
      else Num (if i < 0 then - m else m))"

instantiation jsnum :: "{zero, plus}"
begin

definition zero_jsnum :: jsnum where
  "zero_jsnum = Num 0"

fun plus_jsnum :: "jsnum \<Rightarrow> jsnum \<Rightarrow> jsnum" where
  "plus_jsnum (Num a) (Num b) = nearestDouble (a + b)"
| "plus_jsnum NaN _ = NaN"
| "plus_jsnum _ NaN = NaN"
| "plus_jsnum PosInf NegInf = NaN"
| "plus_jsnum NegInf PosInf = NaN"
| "plus_jsnum PosInf _ = PosInf"
| "plus_jsnum _ PosInf = PosInf"
| "plus_jsnum NegInf _ = NegInf"
| "plus_jsnum _ NegInf = NegInf"

instance ..

end

text \<open>\<^verbatim>\<open>sumArr = (arr) => arr.reduce((prev, curr) => prev + curr, 0)\<close>\<close>

definition sumArr :: "'a::{zero, plus} list \<Rightarrow> 'a" where
  "sumArr arr = foldl (\<lambda>prev curr. prev + curr) 0 arr"

section \<open>String to number conversions used by the size probe\<close>

text \<open>
  The header value is a byte string. \<^verbatim>\<open>+value\<close> applies ECMAScript's StringToNumber,
  whose result is \<^verbatim>\<open>NaN\<close> exactly when the trimmed string is not a
  StringNumericLiteral; \<^verbatim>\<open>parseInt(value)\<close> reads the longest prefix of digits after
  optional whitespace, sign and \<^verbatim>\<open>0x\<close>, and returns the double nearest to their value
  (the value of all the digits: ECMAScript allows, and does not require, an implementation
  to read the digits after the twentieth as zeros). \<open>Num 0\<close> stands for both zeros, which
  no addition starting from \<^verbatim>\<open>0\<close> tells apart.
\<close>

definition isWhiteSpace :: "char \<Rightarrow> bool" where
  "isWhiteSpace c = (of_char c \<in> set [9, 10, 11, 12, 13, 32, 160 :: nat])"

definition digitValue :: "char \<Rightarrow> nat option" where
  "digitValue c =
     (let n = (of_char c :: nat) in
      if 48 \<le> n \<and> n \<le> 57 then Some (n - 48)
      else if 97 \<le> n \<and> n \<le> 122 then Some (n - 87)
      else if 65 \<le> n \<and> n \<le> 90 then Some (n - 55)
      else None)"

definition isRadixDigit :: "nat \<Rightarrow> char \<Rightarrow> bool" where
  "isRadixDigit r c = (case digitValue c of None \<Rightarrow> False | Some d \<Rightarrow> d < r)"

definition digitsValue :: "nat \<Rightarrow> string \<Rightarrow> int" where
  "digitsValue r z =
     foldl (\<lambda>acc c. acc * int r + (case digitValue c of None \<Rightarrow> 0 | Some d \<Rightarrow> int d)) 0 z"

definition trimString :: "string \<Rightarrow> string" where
  "trimString s = rev (dropWhile isWhiteSpace (rev (dropWhile isWhiteSpace s)))"

definition allDigits :: "nat \<Rightarrow> string \<Rightarrow> bool" where
  "allDigits r s = (s \<noteq> [] \<and> list_all (isRadixDigit r) s)"

definition signedInteger :: "string \<Rightarrow> bool" where
  "signedInteger s =
     (case s of
        c # d \<Rightarrow> if c = CHR ''+'' \<or> c = CHR ''-'' then allDigits 10 d else allDigits 10 s
      | [] \<Rightarrow> False)"

definition exponentPartOpt :: "string \<Rightarrow> bool" where
  "exponentPartOpt s =
     (case s of
        [] \<Rightarrow> True
      | c # d \<Rightarrow> (c = CHR ''e'' \<or> c = CHR ''E'') \<and> signedInteger d)"

definition strUnsignedDecimalLiteral :: "string \<Rightarrow> bool" where
  "strUnsignedDecimalLiteral s =
     (s = ''Infinity'' \<or>
      (let ip = takeWhile (isRadixDigit 10) s; r1 = dropWhile (isRadixDigit 10) s in
       case r1 of
         c # r2 \<Rightarrow>
           if c = CHR ''.'' then
             (let fp = takeWhile (isRadixDigit 10) r2; r3 = dropWhile (isRadixDigit 10) r2 in
              (ip \<noteq> [] \<or> fp \<noteq> []) \<and> exponentPartOpt r3)
           else ip \<noteq> [] \<and> exponentPartOpt r1
       | [] \<Rightarrow> ip \<noteq> []))"

definition strDecimalLiteral :: "string \<Rightarrow> bool" where
  "strDecimalLiteral s =
     (case s of
        c # d \<Rightarrow> if c = CHR ''+'' \<or> c = CHR ''-'' then strUnsignedDecimalLiteral d
                 else strUnsignedDecimalLiteral s
      | [] \<Rightarrow> False)"

definition nonDecimalIntegerLiteral :: "string \<Rightarrow> bool" where
  "nonDecimalIntegerLiteral s =
     (case s of
        z # p # d \<Rightarrow>
          z = CHR ''0'' \<and>
          (if p = CHR ''b'' \<or> p = CHR ''B'' then allDigits 2 d
           else if p = CHR ''o'' \<or> p = CHR ''O'' then allDigits 8 d
           else if p = CHR ''x'' \<or> p = CHR ''X'' then allDigits 16 d
           else False)
      | _ \<Rightarrow> False)"

text \<open>\<^verbatim>\<open>isNaN(+value)\<close>\<close>

definition isNaN_toNumber :: "string \<Rightarrow> bool" where
  "isNaN_toNumber v =
     (let t = trimString v in
      \<not> (t = [] \<or> nonDecimalIntegerLiteral t \<or> strDecimalLiteral t))"

text \<open>\<^verbatim>\<open>parseInt(value)\<close>, no radix argument\<close>

definition parseInt :: "string \<Rightarrow> jsnum" where
  "parseInt str =
     (let s = dropWhile isWhiteSpace str;
          neg = (case s of c # _ \<Rightarrow> c = CHR ''-'' | [] \<Rightarrow> False);
          s1 = (case s of c # d \<Rightarrow> if c = CHR ''+'' \<or> c = CHR ''-'' then d else s | [] \<Rightarrow> s);
          hex = (take 2 s1 = ''0x'' \<or> take 2 s1 = ''0X'');
          r = (if hex then 16 else 10);
          s2 = (if hex then drop 2 s1 else s1);
          z = takeWhile (isRadixDigit r) s2
      in if z = [] then NaN
         else nearestDouble ((if neg then - 1 else 1) * digitsValue r z))"

section \<open>The size probe\<close>

text \<open>
  What the probe's request meets: the headers arrive (\<^verbatim>\<open>readyState === 2\<close>) with or
  without a \<^verbatim>\<open>Content-Length\<close>, or \<^verbatim>\<open>onerror\<close> fires.
\<close>

datatype probe_response = HeadersReceived "string option" | ProbeNetworkError

datatype error = ContentLengthNotANumber | ProbeFailed | TransferFailed nat

definition getBinarySize :: "probe_response \<Rightarrow> error + jsnum" where
  "getBinarySize r =
     (case r of
        ProbeNetworkError \<Rightarrow> Inl ProbeFailed
      | HeadersReceived h \<Rightarrow>
          (let v = (case h of None \<Rightarrow> [] | Some x \<Rightarrow> x) in
           if isNaN_toNumber v then Inl ContentLengthNotANumber
           else Inr (parseInt v)))"

section \<open>Tasks, workers and the state of one call\<close>

record task =
  url :: string
  result :: bytes
  started :: bool
  sizeTotal :: nat
  sizeLoaded :: nat

definition newTask :: "string \<Rightarrow> task" where
  "newTask u = \<lparr>url = u, result = [], started = False, sizeTotal = 0, sizeLoaded = 0\<rparr>"

text \<open>
  The arguments of \<^verbatim>\<open>loadBinaryResource\<close> and the one fact of the environment the
  code tests: whether \<^verbatim>\<open>window.caches\<close> exists. \<^verbatim>\<open>nMaxParallel\<close> is taken to be an
  integer, and \<^verbatim>\<open>reportProgress\<close> says whether a progress callback was given; the
  invocations of the callback are logged in the state.
\<close>

record config =
  urls :: "string list"
  nMaxParallel :: int
  reportProgress :: bool
  cachesAvailable :: bool

text \<open>
  A download thread is suspended at \<^verbatim>\<open>await _loadBinaryResource(task.url, ...)\<close> for the
  task it claimed. Inside that call it waits for the cache lookup, for the request, or for
  \<^verbatim>\<open>cache.put\<close>; or the promise can no longer settle (\<^verbatim>\<open>onload\<close> with an empty
  response, or \<^verbatim>\<open>cache.put\<close> threw before \<^verbatim>\<open>resolve\<close>). Otherwise the thread has
  returned or has thrown.
\<close>

datatype worker =
    AwaitCache nat
  | AwaitXhr nat
  | AwaitPut nat bytes
  | Stalled nat
  | Exited
  | Failed

datatype fetched = Single bytes | Many "bytes list"

datatype outcome = Pending | Resolved fetched | Rejected error

datatype phase = Probing | Running | Aborted

text \<open>The effects a run performs, in order.\<close>

datatype action =
    Claim nat nat
  | XhrSend nat
  | TaskProgress nat nat nat
  | Aggregate nat jsnum
  | FetchResolved nat bytes

record state =
  tasks :: "task list"
  workers :: "worker list"
  sizeArr :: "jsnum option list"
  totalSize :: jsnum
  phase :: phase
  outcome :: outcome
  trace :: "action list"

text \<open>
  What the environment does next: a probe completes, the cache lookup of a thread's task
  completes (hit or miss), the request of a thread's task reports progress
  (\<open>loaded\<close>, \<open>total\<close>), loads (with its response) or fails, or \<^verbatim>\<open>cache.put\<close> completes
  (\<open>True\<close>) or throws. Thread events name the thread whose request it is.
\<close>

datatype event =
    ProbeDone nat probe_response
  | CacheMatch nat "bytes option"
  | Progress nat nat nat
  | Load nat "bytes option"
  | PutDone nat bool
  | XhrError nat

section \<open>The download threads\<close>

text \<open>\<^verbatim>\<open>tasks.find(t => !t.started)\<close>, as the index of the task found\<close>

fun findUnstarted :: "task list \<Rightarrow> nat option" where
  "findUnstarted [] = None"
| "findUnstarted (t # ts) =
     (if \<not> started t then Some 0
      else case findUnstarted ts of None \<Rightarrow> None | Some i \<Rightarrow> Some (Suc i))"

definition modifyTask :: "nat \<Rightarrow> (task \<Rightarrow> task) \<Rightarrow> task list \<Rightarrow> task list" where
  "modifyTask i f ts = ts[i := f (ts ! i)]"

text \<open>
  The head of the thread's loop up to its next suspension: find, return or claim, and enter
  \<^verbatim>\<open>_loadBinaryResource\<close> up to its first \<^verbatim>\<open>await\<close>.
\<close>

definition claimNext :: "config \<Rightarrow> nat \<Rightarrow> state \<Rightarrow> worker \<times> state" where
  "claimNext c w s =
     (case findUnstarted (tasks s) of
        None \<Rightarrow> (Exited, s)
      | Some i \<Rightarrow>
          (let s1 = s\<lparr>tasks := modifyTask i (\<lambda>t. t\<lparr>started := True\<rparr>) (tasks s),
                       trace := trace s @ [Claim w i]\<rparr>
           in if cachesAvailable c then (AwaitCache i, s1)
              else (AwaitXhr i, s1\<lparr>trace := trace s1 @ [XhrSend i]\<rparr>)))"

definition finalResult :: "task list \<Rightarrow> fetched" where
  "finalResult ts = (if length ts = 1 then Single (result (ts ! 0)) else Many (map result ts))"

text \<open>\<^verbatim>\<open>await Promise.all(threads)\<close> and the return\<close>

definition settle :: "state \<Rightarrow> state" where
  "settle s =
     (if outcome s = Pending \<and> list_all (\<lambda>w. w = Exited) (workers s)
      then s\<lparr>outcome := Resolved (finalResult (tasks s))\<rparr> else s)"

definition reject :: "error \<Rightarrow> state \<Rightarrow> state" where
  "reject e s = (if outcome s = Pending then s\<lparr>outcome := Rejected e\<rparr> else s)"

text \<open>\<^verbatim>\<open>threads.push(runDownloadThread())\<close>\<close>

definition spawnThread :: "config \<Rightarrow> state \<Rightarrow> state" where
  "spawnThread c s =
     (case claimNext c (length (workers s)) s of
        (w', s') \<Rightarrow> s'\<lparr>workers := workers s' @ [w']\<rparr>)"

fun spawnThreads :: "config \<Rightarrow> nat \<Rightarrow> state \<Rightarrow> state" where
  "spawnThreads c 0 s = s"
| "spawnThreads c (Suc k) s = spawnThreads c k (spawnThread c s)"

definition start :: "config \<Rightarrow> state \<Rightarrow> state" where
  "start c s = settle (spawnThreads c (nat (nMaxParallel c)) (s\<lparr>phase := Running\<rparr>))"

text \<open>
  The fetch of task \<open>i\<close> resolves with \<open>b\<close>: the thread stores the result and takes the
  loop again.
\<close>

definition resume :: "config \<Rightarrow> nat \<Rightarrow> nat \<Rightarrow> bytes \<Rightarrow> state \<Rightarrow> state" where
  "resume c w i b s =
     (case claimNext c w
             (s\<lparr>tasks := modifyTask i (\<lambda>t. t\<lparr>result := b\<rparr>) (tasks s),
                trace := trace s @ [FetchResolved i b]\<rparr>) of
        (w', s') \<Rightarrow> settle (s'\<lparr>workers := (workers s')[w := w']\<rparr>))"

definition onProgress :: "config \<Rightarrow> nat \<Rightarrow> nat \<Rightarrow> nat \<Rightarrow> state \<Rightarrow> state" where
  "onProgress c i l t s =
     (let s1 = s\<lparr>tasks := modifyTask i (\<lambda>x. x\<lparr>sizeTotal := t, sizeLoaded := l\<rparr>) (tasks s),
                  trace := trace s @ [TaskProgress i l t]\<rparr>
      in if reportProgress c
         then s1\<lparr>trace := trace s1 @ [Aggregate (sumArr (map sizeLoaded (tasks s1))) (totalSize s1)]\<rparr>
         else s1)"

definition workerAt :: "state \<Rightarrow> nat \<Rightarrow> worker" where
  "workerAt s w = (if w < length (workers s) then workers s ! w else Exited)"

definition setWorker :: "nat \<Rightarrow> worker \<Rightarrow> state \<Rightarrow> state" where
  "setWorker w x s = s\<lparr>workers := (workers s)[w := x]\<rparr>"

fun step :: "config \<Rightarrow> state \<Rightarrow> event \<Rightarrow> state" where
  "step c s (ProbeDone j r) =
     (if phase s = Probing \<and> j < length (sizeArr s) \<and> sizeArr s ! j = None then
        (case getBinarySize r of
           Inl e \<Rightarrow> s\<lparr>outcome := Rejected e, phase := Aborted\<rparr>
         | Inr v \<Rightarrow>
             (let s1 = s\<lparr>sizeArr := (sizeArr s)[j := Some v]\<rparr> in
              case those (sizeArr s1) of
                None \<Rightarrow> s1
              | Some sizes \<Rightarrow> start c (s1\<lparr>totalSize := sumArr sizes\<rparr>)))
      else s)"
| "step c s (CacheMatch w hit) =
     (case workerAt s w of
        AwaitCache i \<Rightarrow>
          (case hit of
             Some b \<Rightarrow> resume c w i b s
           | None \<Rightarrow> setWorker w (AwaitXhr i) (s\<lparr>trace := trace s @ [XhrSend i]\<rparr>))
      | _ \<Rightarrow> s)"
| "step c s (Progress w l t) =
     (case workerAt s w of AwaitXhr i \<Rightarrow> onProgress c i l t s | _ \<Rightarrow> s)"
| "step c s (Load w resp) =
     (case workerAt s w of
        AwaitXhr i \<Rightarrow>
          (case resp of
             None \<Rightarrow> setWorker w (Stalled i) s
           | Some b \<Rightarrow>
               if cachesAvailable c then setWorker w (AwaitPut i b) s
               else resume c w i b s)
      | _ \<Rightarrow> s)"
| "step c s (PutDone w ok) =
     (case workerAt s w of
        AwaitPut i b \<Rightarrow> if ok then resume c w i b s else setWorker w (Stalled i) s
      | _ \<Rightarrow> s)"
| "step c s (XhrError w) =
     (case workerAt s w of
        AwaitXhr i \<Rightarrow> reject (TransferFailed i) (setWorker w Failed s)
      | _ \<Rightarrow> s)"

text \<open>
  \<^verbatim>\<open>loadBinaryResource\<close> up to its first suspension: the task list, then either the
  probes (with a progress callback and at least one URL) or the threads at once.
\<close>

definition initState :: "config \<Rightarrow> state" where
  "initState c =
     (let s0 = \<lparr>tasks = map newTask (urls c), workers = [],
                 sizeArr = (if reportProgress c then map (\<lambda>u. None) (urls c) else []),
                 totalSize = Num (- 1), phase = Probing, outcome = Pending, trace = []\<rparr>
      in if reportProgress c
         then (case those (sizeArr s0) of
                 None \<Rightarrow> s0
               | Some sizes \<Rightarrow> start c (s0\<lparr>totalSize := sumArr sizes\<rparr>))
         else start c s0)"

definition loadBinaryResource :: "config \<Rightarrow> event list \<Rightarrow> state" where
  "loadBinaryResource c evs = foldl (step c) (initState c) evs"

section \<open>Auxiliary predicates and concrete calls\<close>

fun isWaiting :: "worker \<Rightarrow> bool" where
  "isWaiting (AwaitCache i) = True"
| "isWaiting (AwaitXhr i) = True"
| "isWaiting (AwaitPut i b) = True"
| "isWaiting w = False"

text \<open>What a claim leaves behind: the thread's suspension point and the effects logged.\<close>

definition claimed :: "config \<Rightarrow> nat \<Rightarrow> worker" where
  "claimed c i = (if cachesAvailable c then AwaitCache i else AwaitXhr i)"

definition claimTrace :: "config \<Rightarrow> nat \<Rightarrow> nat \<Rightarrow> action list" where
  "claimTrace c w i = Claim w i # (if cachesAvailable c then [] else [XhrSend i])"

text \<open>
  Facts of every state a call can reach: nothing happens before the threads are spawned,
  there are \<^verbatim>\<open>nMaxParallel\<close> threads from then on, and a resolved call has no thread
  left and returns the buffers of the task list.
\<close>

definition wfA :: "config \<Rightarrow> state \<Rightarrow> bool" where
  "wfA c s \<longleftrightarrow>
     length (tasks s) = length (urls c) \<and>
     (phase s \<noteq> Running \<longrightarrow> workers s = [] \<and> trace s = [] \<and> tasks s = map newTask (urls c)) \<and>
     (phase s = Probing \<longrightarrow> outcome s = Pending) \<and>
     (phase s = Aborted \<longrightarrow> (\<exists>e. outcome s = Rejected e)) \<and>
     (phase s = Running \<longrightarrow> length (workers s) = nat (nMaxParallel c)) \<and>
     (\<forall>r. outcome s = Resolved r \<longrightarrow>
        list_all (\<lambda>w. w = Exited) (workers s) \<and> r = finalResult (tasks s))"

text \<open>
  The claim protocol. \<open>taskOf\<close> is the task a thread is busy with, \<open>claimedTasks\<close>
  the tasks claimed so far in the order of the claims. In every state a call can reach the
  claimed tasks are the first tasks of the list, in order, exactly they are started, no two
  threads are busy with the same task, and a thread has returned only when every task is
  started.
\<close>

fun taskOf :: "worker \<Rightarrow> nat option" where
  "taskOf (AwaitCache i) = Some i"
| "taskOf (AwaitXhr i) = Some i"
| "taskOf (AwaitPut i b) = Some i"
| "taskOf (Stalled i) = Some i"
| "taskOf Exited = None"
| "taskOf Failed = None"

fun claimedTasks :: "action list \<Rightarrow> nat list" where
  "claimedTasks [] = []"
| "claimedTasks (Claim w i # as) = i # claimedTasks as"
| "claimedTasks (a # as) = claimedTasks as"

definition inOrder :: "nat list \<Rightarrow> bool" where
  "inOrder xs \<longleftrightarrow> xs = [0..<length xs]"

definition holds :: "worker list \<Rightarrow> nat \<Rightarrow> nat \<Rightarrow> bool" where
  "holds ws w i \<longleftrightarrow> w < length ws \<and> taskOf (ws ! w) = Some i"

definition wfB :: "state \<Rightarrow> bool" where
  "wfB s \<longleftrightarrow>
     (let k = length (claimedTasks (trace s)) in
      k \<le> length (tasks s) \<and>
      (\<forall>i<length (tasks s). started (tasks s ! i) \<longleftrightarrow> i < k) \<and>
      inOrder (claimedTasks (trace s)) \<and>
      (\<forall>w i. holds (workers s) w i \<longrightarrow> i < k) \<and>
      (\<forall>w w' i. holds (workers s) w i \<longrightarrow> holds (workers s) w' i \<longrightarrow> w = w') \<and>
      (Exited \<in> set (workers s) \<longrightarrow> k = length (tasks s)))"

text \<open>
  What the effects logged say about tasks: a task not yet claimed has no effect, a task
  whose cache lookup is pending has neither a request nor a progress event, a resolved
  fetch has stored its bytes and left its thread, and a claimed task is in progress or
  resolved unless a thread has failed.
\<close>

definition quiet :: "nat \<Rightarrow> action list \<Rightarrow> bool" where
  "quiet i tr \<longleftrightarrow> XhrSend i \<notin> set tr \<and> (\<forall>l t. TaskProgress i l t \<notin> set tr)"

definition wfC :: "state \<Rightarrow> bool" where
  "wfC s \<longleftrightarrow>
     (\<forall>i. length (claimedTasks (trace s)) \<le> i \<longrightarrow>
          quiet i (trace s) \<and> (\<forall>b. FetchResolved i b \<notin> set (trace s))) \<and>
     (\<forall>w i. w < length (workers s) \<longrightarrow> workers s ! w = AwaitCache i \<longrightarrow> quiet i (trace s)) \<and>
     (\<forall>i b. FetchResolved i b \<in> set (trace s) \<longrightarrow>
          result (tasks s ! i) = b \<and> (\<forall>w. \<not> holds (workers s) w i)) \<and>
     (\<forall>i<length (claimedTasks (trace s)).
          (\<exists>w. holds (workers s) w i) \<or> (\<exists>b. FetchResolved i b \<in> set (trace s)) \<or>
          Failed \<in> set (workers s))"

text \<open>
  The invocations of the caller's progress callback, in order, as (loaded, total); and a run
  or a state with every total reported by the transport replaced by \<open>0\<close>.
\<close>

fun eraseTotal :: "event \<Rightarrow> event" where
  "eraseTotal (Progress w l t) = Progress w l 0"
| "eraseTotal e = e"

fun scrubAction :: "action \<Rightarrow> action" where
  "scrubAction (TaskProgress i l t) = TaskProgress i l 0"
| "scrubAction a = a"

definition scrubTask :: "task \<Rightarrow> task" where
  "scrubTask t = t\<lparr>sizeTotal := 0\<rparr>"

definition scrub :: "state \<Rightarrow> state" where
  "scrub s = s\<lparr>tasks := map scrubTask (tasks s), trace := map scrubAction (trace s)\<rparr>"

fun aggregates :: "action list \<Rightarrow> (nat \<times> jsnum) list" where
  "aggregates [] = []"
| "aggregates (Aggregate l t # as) = (l, t) # aggregates as"
| "aggregates (a # as) = aggregates as"

text \<open>
  The total passed to the progress callback: once the threads run it is the sum of the
  probed sizes, and every invocation so far has carried it.
\<close>

definition wfT :: "config \<Rightarrow> state \<Rightarrow> bool" where
  "wfT c s \<longleftrightarrow>
     (reportProgress c \<longrightarrow> length (sizeArr s) = length (urls c)) \<and>
     (phase s = Running \<longrightarrow> reportProgress c \<longrightarrow>
        (\<exists>sizes. those (sizeArr s) = Some sizes \<and> totalSize s = sumArr sizes)) \<and>
     (\<forall>l t. (l, t) \<in> set (aggregates (trace s)) \<longrightarrow> t = totalSize s)"

text \<open>
  The loaded counts: \<open>taskLoads i\<close> are the counts the transport has reported for task
  \<open>i\<close>, in order. A task's \<open>sizeLoaded\<close> is the last of them, the last invocation of the
  callback carries the current sum, and the sums do not decrease when no task's counts do.
\<close>

fun taskLoads :: "nat \<Rightarrow> action list \<Rightarrow> nat list" where
  "taskLoads i [] = []"
| "taskLoads i (TaskProgress j l t # as) = (if j = i then l # taskLoads i as else taskLoads i as)"
| "taskLoads i (a # as) = taskLoads i as"

definition wfL :: "config \<Rightarrow> state \<Rightarrow> bool" where
  "wfL c s \<longleftrightarrow>
     (\<not> reportProgress c \<longrightarrow> aggregates (trace s) = []) \<and>
     (\<forall>i<length (tasks s). sizeLoaded (tasks s ! i) =
          (if taskLoads i (trace s) = [] then 0 else last (taskLoads i (trace s)))) \<and>
     (aggregates (trace s) \<noteq> [] \<longrightarrow>
          fst (last (aggregates (trace s))) = sumArr (map sizeLoaded (tasks s))) \<and>
     ((\<forall>i<length (tasks s). sorted (taskLoads i (trace s))) \<longrightarrow>
          sorted (map fst (aggregates (trace s))))"

text \<open>
  The threads and the URLs: thread \<open>w\<close> has claimed task \<open>w\<close> when there is such a task
  and has returned otherwise, and only the threads that have a task of their own ever
  claim.
\<close>

definition wfS :: "config \<Rightarrow> state \<Rightarrow> bool" where
  "wfS c s \<longleftrightarrow>
     (\<forall>w<length (workers s).
        (w < length (urls c) \<longrightarrow> Claim w w \<in> set (trace s)) \<and>
        (length (urls c) \<le> w \<longrightarrow> workers s ! w = Exited)) \<and>
     (\<forall>w i. Claim w i \<in> set (trace s) \<longrightarrow> w < length (workers s) \<and> w < length (urls c))"

text \<open>Concrete calls\<close>

definition cfgCachedOne :: config where
  "cfgCachedOne =
     \<lparr>urls = [''a''], nMaxParallel = 1, reportProgress = False, cachesAvailable = True\<rparr>"

definition cfgTwoPlain :: config where
  "cfgTwoPlain =
     \<lparr>urls = [''a'', ''b''], nMaxParallel = 2, reportProgress = False, cachesAvailable = False\<rparr>"

definition cfgThreeCached :: config where
  "cfgThreeCached =
     \<lparr>urls = [''a'', ''b'', ''c''], nMaxParallel = 2, reportProgress = True, cachesAvailable = True\<rparr>"

definition evsThree :: "event list" where
  "evsThree =
     [ProbeDone 0 (HeadersReceived (Some ''10'')), ProbeDone 2 (HeadersReceived (Some ''30'')),
      ProbeDone 1 (HeadersReceived (Some ''20'')),
      CacheMatch 0 None, CacheMatch 1 (Some [5]), Progress 0 5 10, Load 0 (Some [1]),
      PutDone 0 True]"

definition evsProbes :: "event list" where
  "evsProbes =
     [ProbeDone 0 (HeadersReceived (Some ''10'')), ProbeDone 2 (HeadersReceived (Some ''30'')),
      ProbeDone 1 (HeadersReceived (Some ''20''))]"

definition evsAfterHit :: "event list" where
  "evsAfterHit =
     [CacheMatch 0 None, Progress 0 5 10, Load 0 (Some [1]), PutDone 0 True,
      CacheMatch 1 None, Progress 1 30 30]"

definition evsTwoInFlight :: "event list" where
  "evsTwoInFlight =
     evsProbes @ [CacheMatch 0 None, CacheMatch 1 None, Progress 0 5 10, Progress 1 3 20,
                  Progress 0 10 10]"

definition cfgNoThreads :: config where
  "cfgNoThreads =
     \<lparr>urls = [''a''], nMaxParallel = 0, reportProgress = False, cachesAvailable = False\<rparr>"

definition cfgFiveThreads :: config where
  "cfgFiveThreads =
     \<lparr>urls = [''a''], nMaxParallel = 5, reportProgress = False, cachesAvailable = False\<rparr>"

definition cfgNoUrls :: config where
  "cfgNoUrls = \<lparr>urls = [], nMaxParallel = 3, reportProgress = True, cachesAvailable = True\<rparr>"

definition cfgTwoNoThreads :: config where
  "cfgTwoNoThreads =
     \<lparr>urls = [''a'', ''b''], nMaxParallel = 0, reportProgress = False, cachesAvailable = False\<rparr>"

section \<open>Basic facts about runs\<close>

lemma run_append:
  "loadBinaryResource c (xs @ ys) = foldl (step c) (loadBinaryResource c xs) ys"
  by (simp add: loadBinaryResource_def)

lemma run_snoc:
  "loadBinaryResource c (xs @ [e]) = step c (loadBinaryResource c xs) e"
  by (simp add: loadBinaryResource_def)

text \<open>Once no probe is pending and no thread waits for anything, no event has an effect.\<close>

lemma step_idle:
  assumes "phase s \<noteq> Probing" and "\<And>w. \<not> isWaiting (workerAt s w)"
  shows "step c s e = s"
proof (cases e)
  case (ProbeDone j r)
  then show ?thesis using assms(1) by simp
next
  case (CacheMatch w hit)
  then show ?thesis using assms(2)[of w] by (cases "workerAt s w") simp_all
next
  case (Progress w l t)
  then show ?thesis using assms(2)[of w] by (cases "workerAt s w") simp_all
next
  case (Load w resp)
  then show ?thesis using assms(2)[of w] by (cases "workerAt s w") simp_all
next
  case (PutDone w ok)
  then show ?thesis using assms(2)[of w] by (cases "workerAt s w") simp_all
next
  case (XhrError w)
  then show ?thesis using assms(2)[of w] by (cases "workerAt s w") simp_all
qed

lemma run_idle:
  assumes "phase s \<noteq> Probing" and "\<And>w. \<not> isWaiting (workerAt s w)"
  shows "foldl (step c) s evs = s"
  by (induction evs) (simp_all add: step_idle[OF assms])

section \<open>The effect of each operation on each field\<close>

lemma settle_fields [simp]:
  "tasks (settle s) = tasks s" "workers (settle s) = workers s" "trace (settle s) = trace s"
  "phase (settle s) = phase s" "sizeArr (settle s) = sizeArr s" "totalSize (settle s) = totalSize s"
  by (simp_all add: settle_def)

lemma settle_outcome:
  "outcome (settle s) =
     (if outcome s = Pending \<and> list_all (\<lambda>w. w = Exited) (workers s)
      then Resolved (finalResult (tasks s)) else outcome s)"
  by (simp add: settle_def)

lemma reject_fields [simp]:
  "tasks (reject e s) = tasks s" "workers (reject e s) = workers s" "trace (reject e s) = trace s"
  "phase (reject e s) = phase s" "sizeArr (reject e s) = sizeArr s" "totalSize (reject e s) = totalSize s"
  by (simp_all add: reject_def)

lemma reject_outcome:
  "outcome (reject e s) = (if outcome s = Pending then Rejected e else outcome s)"
  by (simp add: reject_def)

lemma setWorker_fields [simp]:
  "tasks (setWorker w x s) = tasks s" "workers (setWorker w x s) = (workers s)[w := x]"
  "trace (setWorker w x s) = trace s" "phase (setWorker w x s) = phase s"
  "sizeArr (setWorker w x s) = sizeArr s" "totalSize (setWorker w x s) = totalSize s"
  "outcome (setWorker w x s) = outcome s"
  by (simp_all add: setWorker_def)

lemma claimNext_fst:
  "fst (claimNext c w s) = (case findUnstarted (tasks s) of None \<Rightarrow> Exited | Some i \<Rightarrow> claimed c i)"
  by (simp add: claimNext_def claimed_def Let_def split: option.split)

lemma claimNext_tasks:
  "tasks (snd (claimNext c w s)) =
     (case findUnstarted (tasks s) of None \<Rightarrow> tasks s
      | Some i \<Rightarrow> modifyTask i (\<lambda>t. t\<lparr>started := True\<rparr>) (tasks s))"
  by (simp add: claimNext_def Let_def split: option.split)

lemma claimNext_trace:
  "trace (snd (claimNext c w s)) =
     trace s @ (case findUnstarted (tasks s) of None \<Rightarrow> [] | Some i \<Rightarrow> claimTrace c w i)"
  by (simp add: claimNext_def claimTrace_def Let_def split: option.split)

lemma claimNext_fields [simp]:
  "workers (snd (claimNext c w s)) = workers s" "phase (snd (claimNext c w s)) = phase s"
  "sizeArr (snd (claimNext c w s)) = sizeArr s" "totalSize (snd (claimNext c w s)) = totalSize s"
  "outcome (snd (claimNext c w s)) = outcome s"
  by (simp_all add: claimNext_def Let_def split: option.split)

lemma spawnThread_alt:
  "spawnThread c s =
     (snd (claimNext c (length (workers s)) s))
       \<lparr>workers := workers s @ [fst (claimNext c (length (workers s)) s)]\<rparr>"
  by (simp add: spawnThread_def case_prod_beta)

lemma spawnThread_fields [simp]:
  "workers (spawnThread c s) = workers s @ [fst (claimNext c (length (workers s)) s)]"
  "tasks (spawnThread c s) = tasks (snd (claimNext c (length (workers s)) s))"
  "trace (spawnThread c s) = trace (snd (claimNext c (length (workers s)) s))"
  "phase (spawnThread c s) = phase s" "sizeArr (spawnThread c s) = sizeArr s"
  "totalSize (spawnThread c s) = totalSize s" "outcome (spawnThread c s) = outcome s"
  by (simp_all add: spawnThread_alt)

lemma spawnThreads_fields [simp]:
  "phase (spawnThreads c k s) = phase s" "sizeArr (spawnThreads c k s) = sizeArr s"
  "totalSize (spawnThreads c k s) = totalSize s" "outcome (spawnThreads c k s) = outcome s"
  "length (workers (spawnThreads c k s)) = length (workers s) + k"
  by (induction k arbitrary: s; simp)+

lemma resume_alt:
  "resume c w i b s =
     (let s1 = s\<lparr>tasks := modifyTask i (\<lambda>t. t\<lparr>result := b\<rparr>) (tasks s),
                  trace := trace s @ [FetchResolved i b]\<rparr>
      in settle (setWorker w (fst (claimNext c w s1)) (snd (claimNext c w s1))))"
  by (simp add: resume_def setWorker_def Let_def case_prod_beta)

lemma modifyTask_length [simp]: "length (modifyTask i f ts) = length ts"
  by (simp add: modifyTask_def)

lemma resume_fields [simp]:
  "phase (resume c w i b s) = phase s" "sizeArr (resume c w i b s) = sizeArr s"
  "totalSize (resume c w i b s) = totalSize s"
  "length (workers (resume c w i b s)) = length (workers s)"
  "length (tasks (resume c w i b s)) = length (tasks s)"
  by (simp_all add: resume_alt Let_def claimNext_tasks split: option.split)

lemma onProgress_fields [simp]:
  "phase (onProgress c i l t s) = phase s" "sizeArr (onProgress c i l t s) = sizeArr s"
  "totalSize (onProgress c i l t s) = totalSize s" "workers (onProgress c i l t s) = workers s"
  "outcome (onProgress c i l t s) = outcome s"
  "tasks (onProgress c i l t s) = modifyTask i (\<lambda>x. x\<lparr>sizeTotal := t, sizeLoaded := l\<rparr>) (tasks s)"
  by (simp_all add: onProgress_def Let_def)

lemma start_fields [simp]:
  "phase (start c s) = Running" "sizeArr (start c s) = sizeArr s"
  "totalSize (start c s) = totalSize s"
  "length (workers (start c s)) = length (workers s) + nat (nMaxParallel c)"
  by (simp_all add: start_def)

lemma claimNext_tasks_length [simp]:
  "length (tasks (snd (claimNext c w s))) = length (tasks s)"
  by (simp add: claimNext_tasks split: option.split)

lemma spawnThreads_tasks_length [simp]:
  "length (tasks (spawnThreads c k s)) = length (tasks s)"
  by (induction k arbitrary: s) simp_all

lemma start_tasks_length [simp]: "length (tasks (start c s)) = length (tasks s)"
  by (simp add: start_def)

lemma start_outcome:
  "outcome (start c s) = Pending \<or> outcome (start c s) = outcome s \<or>
   (list_all (\<lambda>w. w = Exited) (workers (start c s)) \<and>
    outcome (start c s) = Resolved (finalResult (tasks (start c s))))"
  by (simp add: start_def settle_outcome)

lemma workerAt_eq:
  "workerAt s w = x \<Longrightarrow> x \<noteq> Exited \<Longrightarrow> w < length (workers s) \<and> workers s ! w = x"
  by (auto simp: workerAt_def split: if_splits)

lemma step_cases [case_names idle probe_fail probe_wait probe_start hit miss progress
    load_null load_put load_done put_ok put_fail error]:
  obtains
    "step c s e = s"
  | j r err where "e = ProbeDone j r" "phase s = Probing" "j < length (sizeArr s)"
      "sizeArr s ! j = None" "getBinarySize r = Inl err"
      "step c s e = s\<lparr>outcome := Rejected err, phase := Aborted\<rparr>"
  | j r v where "e = ProbeDone j r" "phase s = Probing" "j < length (sizeArr s)"
      "sizeArr s ! j = None" "getBinarySize r = Inr v"
      "those ((sizeArr s)[j := Some v]) = None"
      "step c s e = s\<lparr>sizeArr := (sizeArr s)[j := Some v]\<rparr>"
  | j r v sizes where "e = ProbeDone j r" "phase s = Probing" "j < length (sizeArr s)"
      "sizeArr s ! j = None" "getBinarySize r = Inr v"
      "those ((sizeArr s)[j := Some v]) = Some sizes"
      "step c s e = start c (s\<lparr>sizeArr := (sizeArr s)[j := Some v], totalSize := sumArr sizes\<rparr>)"
  | w i b where "e = CacheMatch w (Some b)" "workerAt s w = AwaitCache i"
      "step c s e = resume c w i b s"
  | w i where "e = CacheMatch w None" "workerAt s w = AwaitCache i"
      "step c s e = setWorker w (AwaitXhr i) (s\<lparr>trace := trace s @ [XhrSend i]\<rparr>)"
  | w i l t where "e = Progress w l t" "workerAt s w = AwaitXhr i"
      "step c s e = onProgress c i l t s"
  | w i where "e = Load w None" "workerAt s w = AwaitXhr i"
      "step c s e = setWorker w (Stalled i) s"
  | w i b where "e = Load w (Some b)" "workerAt s w = AwaitXhr i" "cachesAvailable c"
      "step c s e = setWorker w (AwaitPut i b) s"
  | w i b where "e = Load w (Some b)" "workerAt s w = AwaitXhr i" "\<not> cachesAvailable c"
      "step c s e = resume c w i b s"
  | w i b where "e = PutDone w True" "workerAt s w = AwaitPut i b"
      "step c s e = resume c w i b s"
  | w i b where "e = PutDone w False" "workerAt s w = AwaitPut i b"
      "step c s e = setWorker w (Stalled i) s"
  | w i where "e = XhrError w" "workerAt s w = AwaitXhr i"
      "step c s e = reject (TransferFailed i) (setWorker w Failed s)"
proof (cases e)
  case (ProbeDone j r)
  show ?thesis
  proof (cases "phase s = Probing \<and> j < length (sizeArr s) \<and> sizeArr s ! j = None")
    case False
    then show ?thesis using that(1) ProbeDone by auto
  next
    case True
    show ?thesis
    proof (cases "getBinarySize r")
      case (Inl err)
      then show ?thesis using that(2)[of j r err] True ProbeDone by simp
    next
      case (Inr v)
      show ?thesis
      proof (cases "those ((sizeArr s)[j := Some v])")
        case None
        then show ?thesis using that(3)[of j r v] True ProbeDone Inr by simp
      next
        case (Some sizes)
        then show ?thesis using that(4)[of j r v sizes] True ProbeDone Inr by simp
      qed
    qed
  qed
next
  case (CacheMatch w hit)
  then show ?thesis
    using that(1,5,6) by (cases "workerAt s w"; cases hit) auto
next
  case (Progress w l t)
  then show ?thesis
    using that(1,7) by (cases "workerAt s w") auto
next
  case (Load w resp)
  then show ?thesis
    using that(1,8,9,10) by (cases "workerAt s w"; cases resp; cases "cachesAvailable c") auto
next
  case (PutDone w ok)
  then show ?thesis
    using that(1,11,12) by (cases "workerAt s w"; cases ok) auto
next
  case (XhrError w)
  then show ?thesis
    using that(1,13) by (cases "workerAt s w") auto
qed

section \<open>States a call can reach\<close>

lemma all_exited_workerAt:
  "list_all (\<lambda>w. w = Exited) (workers s) \<Longrightarrow> workerAt s w = Exited"
  by (simp add: workerAt_def list_all_length)

lemma resume_outcome:
  "outcome (resume c w i b s) = outcome s \<or>
   (outcome s = Pending \<and> list_all (\<lambda>w. w = Exited) (workers (resume c w i b s)) \<and>
    outcome (resume c w i b s) = Resolved (finalResult (tasks (resume c w i b s))))"
  by (simp add: resume_alt Let_def settle_outcome)

lemma those_all_None: "those (map (\<lambda>u. None) us) = (if us = [] then Some [] else None)"
  by (cases us) simp_all

lemma wfA_start:
  assumes "length (tasks s) = length (urls c)" "workers s = []" "outcome s = Pending"
  shows "wfA c (start c s)"
  using assms start_outcome[of c s] by (auto simp: wfA_def)

lemma wfA_init: "wfA c (initState c)"
proof (cases "reportProgress c \<and> urls c \<noteq> []")
  case True
  then show ?thesis by (simp add: initState_def Let_def those_all_None wfA_def)
next
  case False
  have "wfA c (start c \<lparr>tasks = map newTask (urls c), workers = [], sizeArr = sa,
      totalSize = ts, phase = Probing, outcome = Pending, trace = []\<rparr>)" for sa ts
    by (rule wfA_start) simp_all
  with False show ?thesis
    by (auto simp: initState_def Let_def those_all_None)
qed

lemma wfA_waiting:
  assumes "wfA c s" "workerAt s w = x" "x \<noteq> Exited"
  shows "phase s = Running" "\<forall>r. outcome s \<noteq> Resolved r" "w < length (workers s)"
proof -
  have w: "w < length (workers s)" using assms(2,3) workerAt_eq by blast
  then show "w < length (workers s)" .
  from w show "phase s = Running" using assms(1) by (auto simp: wfA_def)
  show "\<forall>r. outcome s \<noteq> Resolved r"
    using assms all_exited_workerAt[of s w] by (auto simp: wfA_def)
qed

lemma wfA_resume:
  assumes "wfA c s" "workerAt s w = x" "x \<noteq> Exited"
  shows "wfA c (resume c w i b s)"
  using assms(1) wfA_waiting[OF assms] resume_outcome[of c w i b s]
  by (auto simp: wfA_def)

lemma wfA_setWorker:
  assumes "wfA c s" "workerAt s w = x" "x \<noteq> Exited"
  shows "wfA c (setWorker w y s)"
  using assms(1) wfA_waiting[OF assms] by (auto simp: wfA_def)

lemma wfA_step: "wfA c s \<Longrightarrow> wfA c (step c s e)"
proof (cases rule: step_cases[of c s e])
  case idle
  assume "wfA c s" then show ?thesis using idle by simp
next
  case (probe_fail j r err)
  assume "wfA c s" then show ?thesis using probe_fail by (simp add: wfA_def)
next
  case (probe_wait j r v)
  assume "wfA c s" then show ?thesis using probe_wait by (simp add: wfA_def)
next
  case (probe_start j r v sizes)
  assume a: "wfA c s"
  have "wfA c (start c (s\<lparr>sizeArr := (sizeArr s)[j := Some v], totalSize := sumArr sizes\<rparr>))"
    by (rule wfA_start) (use a probe_start(2) in \<open>auto simp: wfA_def\<close>)
  then show ?thesis using probe_start(7) by simp
next
  case (hit w i b)
  assume "wfA c s" then show ?thesis using hit wfA_resume by simp
next
  case (miss w i)
  assume a: "wfA c s"
  have "wfA c (s\<lparr>trace := trace s @ [XhrSend i]\<rparr>)"
    using a wfA_waiting[OF a miss(2)] by (auto simp: wfA_def)
  moreover have "workerAt (s\<lparr>trace := trace s @ [XhrSend i]\<rparr>) w = AwaitCache i"
    using miss(2) by (auto simp: workerAt_def split: if_splits)
  ultimately show ?thesis using miss(3) wfA_setWorker by simp
next
  case (progress w i l t)
  assume a: "wfA c s"
  show ?thesis using a wfA_waiting[OF a progress(2)] progress(3) by (auto simp: wfA_def)
next
  case (load_null w i)
  assume "wfA c s" then show ?thesis using load_null wfA_setWorker by simp
next
  case (load_put w i b)
  assume "wfA c s" then show ?thesis using load_put wfA_setWorker by simp
next
  case (load_done w i b)
  assume "wfA c s" then show ?thesis using load_done wfA_resume by simp
next
  case (put_ok w i b)
  assume "wfA c s" then show ?thesis using put_ok wfA_resume by simp
next
  case (put_fail w i b)
  assume "wfA c s" then show ?thesis using put_fail wfA_setWorker by simp
next
  case (error w i)
  assume a: "wfA c s"
  show ?thesis using a wfA_waiting[OF a error(2)] error(3)
    by (auto simp: wfA_def reject_outcome)
qed

lemma wfA_foldl: "wfA c s \<Longrightarrow> wfA c (foldl (step c) s evs)"
  by (induction evs arbitrary: s) (simp_all add: wfA_step)

lemma wfA_run: "wfA c (loadBinaryResource c evs)"
  by (simp add: loadBinaryResource_def wfA_foldl wfA_init)

lemma outcome_step_settled:
  assumes "wfA c s" "outcome s \<noteq> Pending"
  shows "outcome (step c s e) = outcome s"
proof (cases rule: step_cases[of c s e])
  case (hit w i b)
  then show ?thesis using assms(2) resume_outcome[of c w i b s] by auto
next
  case (load_done w i b)
  then show ?thesis using assms(2) resume_outcome[of c w i b s] by auto
next
  case (put_ok w i b)
  then show ?thesis using assms(2) resume_outcome[of c w i b s] by auto
next
  case (probe_start j r v sizes)
  then show ?thesis using assms by (simp add: wfA_def)
qed (use assms in \<open>auto simp: wfA_def reject_outcome\<close>)

lemma outcome_foldl_settled:
  "wfA c s \<Longrightarrow> outcome s \<noteq> Pending \<Longrightarrow> outcome (foldl (step c) s evs) = outcome s"
  by (induction evs arbitrary: s) (simp_all add: wfA_step outcome_step_settled)

lemma aggregates_append [simp]: "aggregates (xs @ ys) = aggregates xs @ aggregates ys"
  by (induction xs rule: aggregates.induct) simp_all

lemma aggregates_scrub [simp]: "aggregates (map scrubAction tr) = aggregates tr"
  by (induction tr rule: aggregates.induct) simp_all

section \<open>The claim protocol holds in every reachable state\<close>

lemma claimedTasks_append [simp]:
  "claimedTasks (xs @ ys) = claimedTasks xs @ claimedTasks ys"
  by (induction xs rule: claimedTasks.induct) simp_all

lemma claimedTasks_claimTrace [simp]: "claimedTasks (claimTrace c w i) = [i]"
  by (simp add: claimTrace_def)

lemma taskOf_claimed [simp]: "taskOf (claimed c i) = Some i"
  by (simp add: claimed_def)

lemma claimed_not_Exited [simp]: "claimed c i \<noteq> Exited" "claimed c i \<noteq> Failed"
  by (simp_all add: claimed_def)

lemma findUnstarted_prefix:
  "k \<le> length ts \<Longrightarrow> (\<forall>i<length ts. started (ts ! i) \<longleftrightarrow> i < k) \<Longrightarrow>
   findUnstarted ts = (if k < length ts then Some k else None)"
proof (induction ts arbitrary: k)
  case Nil
  then show ?case by simp
next
  case (Cons t ts)
  show ?case
  proof (cases k)
    case 0
    then show ?thesis using Cons.prems(2) by auto
  next
    case (Suc k')
    have t: "started t" using Cons.prems(2) Suc by auto
    have "\<forall>i<length ts. started (ts ! i) \<longleftrightarrow> i < k'"
      using Cons.prems(2) Suc by auto
    then have "findUnstarted ts = (if k' < length ts then Some k' else None)"
      using Cons.IH[of k'] Cons.prems(1) Suc by simp
    then show ?thesis using t Suc by simp
  qed
qed

lemma modifyTask_nth:
  "i < length ts \<Longrightarrow> modifyTask j f ts ! i = (if i = j then f (ts ! i) else ts ! i)"
  by (simp add: modifyTask_def nth_list_update)

lemma wfB_findUnstarted:
  assumes "wfB s"
  shows "findUnstarted (tasks s) =
     (if length (claimedTasks (trace s)) < length (tasks s)
      then Some (length (claimedTasks (trace s))) else None)"
  using assms findUnstarted_prefix[of "length (claimedTasks (trace s))" "tasks s"]
  by (simp add: wfB_def Let_def)

lemma findUnstarted_modify:
  assumes "\<And>t. started (f t) = started t"
  shows "findUnstarted (modifyTask i f ts) = findUnstarted ts"
proof -
  have "map started (modifyTask i f ts) = map started ts"
  proof (cases "i < length ts")
    case True
    then show ?thesis by (simp add: modifyTask_def assms map_update list_update_same_conv)
  next
    case False
    then show ?thesis by (simp add: modifyTask_def list_update_beyond)
  qed
  moreover have "map started xs = map started ys \<Longrightarrow> findUnstarted xs = findUnstarted ys" for xs ys
  proof (induction xs arbitrary: ys)
    case Nil
    then show ?case by simp
  next
    case (Cons x xs)
    then obtain y ys' where "ys = y # ys'" "started x = started y" "map started xs = map started ys'"
      by (cases ys) auto
    then show ?case using Cons.IH[of ys'] by simp
  qed
  ultimately show ?thesis by blast
qed

lemma inOrder_snoc: "inOrder xs \<Longrightarrow> inOrder (xs @ [length xs])"
proof -
  assume "inOrder xs"
  then have a: "[0..<length xs] = xs" by (simp add: inOrder_def)
  show ?thesis unfolding inOrder_def by (simp add: a)
qed

lemma holds_update:
  "holds (ws[w := x]) w' i \<longleftrightarrow>
     (if w' = w then w < length ws \<and> taskOf x = Some i else holds ws w' i)"
  by (auto simp: holds_def nth_list_update)

lemma holds_append:
  "holds (ws @ [x]) w' i \<longleftrightarrow>
     (if w' = length ws then taskOf x = Some i else holds ws w' i)"
  by (auto simp: holds_def nth_append)

lemma wfB_fields:
  assumes "tasks s' = tasks s" "workers s' = workers s" "trace s' = trace s"
  shows "wfB s' = wfB s"
  by (simp add: wfB_def assms)

lemma wfBI:
  assumes "length (claimedTasks (trace s)) \<le> length (tasks s)"
    and "\<And>i. i < length (tasks s) \<Longrightarrow>
           started (tasks s ! i) \<longleftrightarrow> i < length (claimedTasks (trace s))"
    and "inOrder (claimedTasks (trace s))"
    and "\<And>w i. holds (workers s) w i \<Longrightarrow> i < length (claimedTasks (trace s))"
    and "\<And>w w' i. holds (workers s) w i \<Longrightarrow> holds (workers s) w' i \<Longrightarrow> w = w'"
    and "Exited \<in> set (workers s) \<Longrightarrow> length (claimedTasks (trace s)) = length (tasks s)"
  shows "wfB s"
  unfolding wfB_def Let_def using assms by blast

lemma wfBD:
  assumes "wfB s"
  shows "length (claimedTasks (trace s)) \<le> length (tasks s)"
    and "\<And>i. i < length (tasks s) \<Longrightarrow>
           started (tasks s ! i) \<longleftrightarrow> i < length (claimedTasks (trace s))"
    and "inOrder (claimedTasks (trace s))"
    and "\<And>w i. holds (workers s) w i \<Longrightarrow> i < length (claimedTasks (trace s))"
    and "\<And>w w' i. holds (workers s) w i \<Longrightarrow> holds (workers s) w' i \<Longrightarrow> w = w'"
    and "Exited \<in> set (workers s) \<Longrightarrow> length (claimedTasks (trace s)) = length (tasks s)"
  using assms unfolding wfB_def Let_def by blast+

text \<open>A thread taking the loop in a state of the protocol: either a new thread
  (\<open>fresh\<close>) or thread \<open>w\<close> whose fetch has resolved.\<close>

lemma wfB_claim:
  assumes wf: "wfB s"
    and ts: "tasks s' = tasks (snd (claimNext c w s))"
    and tr: "trace s' = trace (snd (claimNext c w s))"
    and ws: "workers s' = workers s @ [fst (claimNext c w s)] \<or>
             (w < length (workers s) \<and> workers s' = (workers s)[w := fst (claimNext c w s)])"
  shows "wfB s'"
proof -
  let ?k = "length (claimedTasks (trace s))"
  note d = wfBD[OF wf]
  note fu = wfB_findUnstarted[OF wf]
  show ?thesis
  proof (cases "?k < length (tasks s)")
    case True
    have ts': "tasks s' = modifyTask ?k (\<lambda>t. t\<lparr>started := True\<rparr>) (tasks s)"
      using ts True by (simp add: claimNext_tasks fu)
    have tr': "trace s' = trace s @ claimTrace c w ?k"
      using tr True by (simp add: claimNext_trace fu)
    have fst: "fst (claimNext c w s) = claimed c ?k"
      using True by (simp add: claimNext_fst fu)
    have k': "length (claimedTasks (trace s')) = Suc ?k" by (simp add: tr')
    have noex: "Exited \<notin> set (workers s)" using d(6) True by auto
    have h: "holds (workers s') w' i \<Longrightarrow> holds (workers s) w' i \<or> i = ?k" for w' i
      using ws by (auto simp: fst holds_append holds_update split: if_splits)
    show ?thesis
    proof (rule wfBI)
      show "length (claimedTasks (trace s')) \<le> length (tasks s')"
        using True by (simp add: k' ts')
      show "started (tasks s' ! i) \<longleftrightarrow> i < length (claimedTasks (trace s'))"
        if "i < length (tasks s')" for i
        using that d(2)[of i] by (auto simp: k' ts' modifyTask_nth)
      show "inOrder (claimedTasks (trace s'))"
        using d(3) by (simp add: tr' inOrder_snoc)
      show "i < length (claimedTasks (trace s'))" if "holds (workers s') w' i" for w' i
        using h[OF that] d(4)[of w' i] by (auto simp: k')
      show "w1 = w2" if a: "holds (workers s') w1 i" and b: "holds (workers s') w2 i" for w1 w2 i
      proof (cases "i = ?k")
        case False
        then have "holds (workers s) w1 i" "holds (workers s) w2 i"
          using h[OF a] h[OF b] by auto
        then show ?thesis using d(5) by blast
      next
        case ik: True
        have nh: "\<not> holds (workers s) w' ?k" for w' using d(4)[of w' ?k] by auto
        from ws show ?thesis
        proof (elim disjE conjE)
          assume e: "workers s' = workers s @ [fst (claimNext c w s)]"
          have "w1 = length (workers s)" "w2 = length (workers s)"
            using a b nh ik unfolding e by (auto simp: holds_append split: if_splits)
          then show ?thesis by simp
        next
          assume e: "workers s' = (workers s)[w := fst (claimNext c w s)]"
          have "w1 = w" "w2 = w"
            using a b nh ik unfolding e by (auto simp: holds_update split: if_splits)
          then show ?thesis by simp
        qed
      qed
      show "length (claimedTasks (trace s')) = length (tasks s')" if "Exited \<in> set (workers s')"
      proof -
        have "Exited \<in> set (workers s) \<or> Exited = claimed c ?k"
          using that ws by (auto simp: fst dest: set_update_subset_insert[THEN subsetD])
        then show ?thesis using noex claimed_not_Exited(1)[of c ?k] by auto
      qed
    qed
  next
    case False
    then have kn: "?k = length (tasks s)" using d(1) by simp
    have ts': "tasks s' = tasks s" using ts False by (simp add: claimNext_tasks fu)
    have tr': "trace s' = trace s" using tr False by (simp add: claimNext_trace fu)
    have fst: "fst (claimNext c w s) = Exited" using False by (simp add: claimNext_fst fu)
    have h: "holds (workers s') w' i \<Longrightarrow> holds (workers s) w' i" for w' i
      using ws by (auto simp: fst holds_append holds_update split: if_splits)
    show ?thesis
    proof (rule wfBI)
      show "w1 = w2" if "holds (workers s') w1 i" "holds (workers s') w2 i" for w1 w2 i
        using h that d(5) by blast
      show "i < length (claimedTasks (trace s'))" if "holds (workers s') w' i" for w' i
        using h[OF that] d(4) by (simp add: tr')
    qed (use d kn in \<open>auto simp: ts' tr'\<close>)
  qed
qed

lemma wfB_spawnThread:
  assumes "wfB s"
  shows "wfB (spawnThread c s)"
  by (rule wfB_claim[OF assms, of _ c "length (workers s)"]) simp_all

lemma wfB_spawnThreads: "wfB s \<Longrightarrow> wfB (spawnThreads c k s)"
  by (induction k arbitrary: s) (simp_all add: wfB_spawnThread)

lemma wfB_start: "wfB s \<Longrightarrow> wfB (start c s)"
proof -
  assume a: "wfB s"
  have "wfB (s\<lparr>phase := Running\<rparr>)" using a by (simp add: wfB_def)
  then have "wfB (spawnThreads c (nat (nMaxParallel c)) (s\<lparr>phase := Running\<rparr>))"
    by (rule wfB_spawnThreads)
  then show ?thesis unfolding start_def by (simp add: wfB_def)
qed

lemma onProgress_trace:
  "trace (onProgress c i l t s) =
     trace s @ TaskProgress i l t #
       (if reportProgress c
        then [Aggregate (sumArr (map sizeLoaded (tasks (onProgress c i l t s)))) (totalSize s)]
        else [])"
  by (simp add: onProgress_def Let_def)

lemma wfB_update:
  assumes wf: "wfB s"
    and "length (tasks s') = length (tasks s)"
    and "\<And>i. i < length (tasks s) \<Longrightarrow> started (tasks s' ! i) = started (tasks s ! i)"
    and "claimedTasks (trace s') = claimedTasks (trace s)"
    and "\<And>w i. holds (workers s') w i \<Longrightarrow> holds (workers s) w i"
    and "Exited \<in> set (workers s') \<Longrightarrow> Exited \<in> set (workers s)"
  shows "wfB s'"
proof (rule wfBI)
  note d = wfBD[OF wf]
  show "w1 = w2" if "holds (workers s') w1 i" "holds (workers s') w2 i" for w1 w2 i
    using that assms(5) d(5) by blast
  show "i < length (claimedTasks (trace s'))" if "holds (workers s') w i" for w i
    using assms(5)[OF that] d(4) assms(4) by simp
  show "started (tasks s' ! i) \<longleftrightarrow> i < length (claimedTasks (trace s'))"
    if "i < length (tasks s')" for i
    using that assms(2,3,4) d(2)[of i] by simp
qed (use assms wfBD[OF wf] in simp_all)

lemma holds_workerAt:
  "workerAt s w = x \<Longrightarrow> taskOf x = Some i \<Longrightarrow> holds (workers s) w i"
  by (auto simp: holds_def workerAt_def split: if_splits)

lemma holds_retask:
  assumes "holds ws w i" "taskOf x = Some i" "holds (ws[w := x]) w' j"
  shows "holds ws w' j"
  using assms by (auto simp: holds_update split: if_splits)

lemma wfB_setWorker:
  assumes wf: "wfB s" and h: "holds (workers s) w i"
    and x: "taskOf x = Some i \<or> x = Failed"
  shows "wfB (setWorker w x s)"
proof (rule wfB_update[OF wf])
  show "holds (workers s) w' j" if "holds (workers (setWorker w x s)) w' j" for w' j
    using that h x by (auto simp: holds_update split: if_splits)
  show "Exited \<in> set (workers s)" if "Exited \<in> set (workers (setWorker w x s))"
  proof -
    have "Exited \<in> insert x (set (workers s))"
      using that set_update_subset_insert[of "workers s" w x] by auto
    then show ?thesis using x by auto
  qed
qed simp_all

lemma wfB_resume:
  assumes wf: "wfB s" and h: "holds (workers s) w i"
  shows "wfB (resume c w i b s)"
proof -
  let ?s1 = "s\<lparr>tasks := modifyTask i (\<lambda>t. t\<lparr>result := b\<rparr>) (tasks s),
                 trace := trace s @ [FetchResolved i b]\<rparr>"
  have 1: "wfB ?s1"
    by (rule wfB_update[OF wf]) (simp_all add: modifyTask_nth)
  have w: "w < length (workers s)" using h by (simp add: holds_def)
  show ?thesis
    by (rule wfB_claim[OF 1, of _ c w]) (simp_all add: resume_alt Let_def w)
qed

lemma wfB_step: "wfB s \<Longrightarrow> wfB (step c s e)"
proof (cases rule: step_cases[of c s e])
  case idle
  assume "wfB s" then show ?thesis using idle by simp
next
  case (probe_fail j r err)
  assume "wfB s" then show ?thesis using probe_fail(6) by (simp add: wfB_def)
next
  case (probe_wait j r v)
  assume "wfB s" then show ?thesis using probe_wait(7) by (simp add: wfB_def)
next
  case (probe_start j r v sizes)
  assume "wfB s"
  then have "wfB (s\<lparr>sizeArr := (sizeArr s)[j := Some v], totalSize := sumArr sizes\<rparr>)"
    by (simp add: wfB_def)
  then show ?thesis using probe_start(7) wfB_start by simp
next
  case (hit w i b)
  assume "wfB s" then show ?thesis using hit wfB_resume holds_workerAt[OF hit(2)] by simp
next
  case (miss w i)
  assume a: "wfB s"
  have "wfB (s\<lparr>trace := trace s @ [XhrSend i]\<rparr>)"
    by (rule wfB_update[OF a]) simp_all
  moreover have "holds (workers (s\<lparr>trace := trace s @ [XhrSend i]\<rparr>)) w i"
    using holds_workerAt[OF miss(2)] by simp
  ultimately show ?thesis using miss(3) wfB_setWorker[of _ w i "AwaitXhr i"] by simp
next
  case (progress w i l t)
  assume a: "wfB s"
  have "wfB (onProgress c i l t s)"
    by (rule wfB_update[OF a]) (simp_all add: modifyTask_nth onProgress_trace)
  then show ?thesis using progress(3) by simp
next
  case (load_null w i)
  assume "wfB s" then show ?thesis
    using load_null wfB_setWorker[of s w i "Stalled i"] holds_workerAt[OF load_null(2)] by simp
next
  case (load_put w i b)
  assume "wfB s" then show ?thesis
    using load_put wfB_setWorker[of s w i "AwaitPut i b"] holds_workerAt[OF load_put(2)] by simp
next
  case (load_done w i b)
  assume "wfB s" then show ?thesis
    using load_done wfB_resume holds_workerAt[OF load_done(2)] by simp
next
  case (put_ok w i b)
  assume "wfB s" then show ?thesis
    using put_ok wfB_resume holds_workerAt[OF put_ok(2)] by simp
next
  case (put_fail w i b)
  assume "wfB s" then show ?thesis
    using put_fail wfB_setWorker[of s w i "Stalled i"] holds_workerAt[OF put_fail(2)] by simp
next
  case (error w i)
  assume a: "wfB s"
  have "wfB (setWorker w Failed s)"
    using a wfB_setWorker[of s w i Failed] holds_workerAt[OF error(2)] by simp
  then show ?thesis using error(3) by (simp add: wfB_def)
qed

lemma wfB_init: "wfB (initState c)"
proof -
  have 0: "wfB \<lparr>tasks = map newTask (urls c), workers = [], sizeArr = sa, totalSize = ts,
      phase = Probing, outcome = Pending, trace = []\<rparr>" for sa ts
    by (simp add: wfB_def holds_def inOrder_def newTask_def)
  show ?thesis
    using 0 wfB_start[OF 0]
    by (auto simp: initState_def Let_def wfB_start split: option.split)
qed

lemma wfB_foldl: "wfB s \<Longrightarrow> wfB (foldl (step c) s evs)"
  by (induction evs arbitrary: s) (simp_all add: wfB_step)

lemma wfB_run: "wfB (loadBinaryResource c evs)"
  by (simp add: loadBinaryResource_def wfB_foldl wfB_init)

lemma wfCI:
  assumes "\<And>i. length (claimedTasks (trace s)) \<le> i \<Longrightarrow> quiet i (trace s)"
    and "\<And>i b. length (claimedTasks (trace s)) \<le> i \<Longrightarrow> FetchResolved i b \<notin> set (trace s)"
    and "\<And>w i. w < length (workers s) \<Longrightarrow> workers s ! w = AwaitCache i \<Longrightarrow> quiet i (trace s)"
    and "\<And>i b. FetchResolved i b \<in> set (trace s) \<Longrightarrow> result (tasks s ! i) = b"
    and "\<And>i b w. FetchResolved i b \<in> set (trace s) \<Longrightarrow> \<not> holds (workers s) w i"
    and "\<And>i. i < length (claimedTasks (trace s)) \<Longrightarrow>
          (\<exists>w. holds (workers s) w i) \<or> (\<exists>b. FetchResolved i b \<in> set (trace s)) \<or>
          Failed \<in> set (workers s)"
  shows "wfC s"
  unfolding wfC_def using assms by blast

lemma wfCD:
  assumes "wfC s"
  shows "\<And>i. length (claimedTasks (trace s)) \<le> i \<Longrightarrow> quiet i (trace s)"
    and "\<And>i b. length (claimedTasks (trace s)) \<le> i \<Longrightarrow> FetchResolved i b \<notin> set (trace s)"
    and "\<And>w i. w < length (workers s) \<Longrightarrow> workers s ! w = AwaitCache i \<Longrightarrow> quiet i (trace s)"
    and "\<And>i b. FetchResolved i b \<in> set (trace s) \<Longrightarrow> result (tasks s ! i) = b"
    and "\<And>i b w. FetchResolved i b \<in> set (trace s) \<Longrightarrow> \<not> holds (workers s) w i"
    and "\<And>i. i < length (claimedTasks (trace s)) \<Longrightarrow>
          (\<exists>w. holds (workers s) w i) \<or> (\<exists>b. FetchResolved i b \<in> set (trace s)) \<or>
          Failed \<in> set (workers s)"
  using assms unfolding wfC_def by blast+

lemma quiet_append: "quiet i (xs @ ys) \<longleftrightarrow> quiet i xs \<and> quiet i ys"
  by (auto simp: quiet_def)

lemma quiet_claimTrace: "quiet i (claimTrace c w k) \<longleftrightarrow> \<not> (i = k \<and> \<not> cachesAvailable c)"
  by (auto simp: quiet_def claimTrace_def)

lemma FetchResolved_claimTrace [simp]: "FetchResolved i b \<notin> set (claimTrace c w k)"
  by (simp add: claimTrace_def)

lemma claimed_AwaitCache: "claimed c k = AwaitCache i \<longleftrightarrow> i = k \<and> cachesAvailable c"
  by (auto simp: claimed_def)

text \<open>The loop of a thread, written out in a state of the protocol.\<close>

lemma claim_explicit:
  assumes wf: "wfB s"
  shows "length (claimedTasks (trace s)) < length (tasks s) \<Longrightarrow>
           fst (claimNext c w s) = claimed c (length (claimedTasks (trace s))) \<and>
           tasks (snd (claimNext c w s)) =
             modifyTask (length (claimedTasks (trace s))) (\<lambda>t. t\<lparr>started := True\<rparr>) (tasks s) \<and>
           trace (snd (claimNext c w s)) = trace s @ claimTrace c w (length (claimedTasks (trace s)))"
    and "\<not> length (claimedTasks (trace s)) < length (tasks s) \<Longrightarrow>
           fst (claimNext c w s) = Exited \<and> tasks (snd (claimNext c w s)) = tasks s \<and>
           trace (snd (claimNext c w s)) = trace s"
  by (simp_all add: claimNext_fst claimNext_tasks claimNext_trace wfB_findUnstarted[OF wf])

lemma set_update_keep:
  assumes "y \<in> set ws" "ws ! w \<noteq> y"
  shows "y \<in> set (ws[w := x])"
proof -
  obtain j where j: "j < length ws" "ws ! j = y" using assms(1) by (auto simp: in_set_conv_nth)
  then have "j \<noteq> w" using assms(2) by auto
  then have "ws[w := x] ! j = y" using j by simp
  then show ?thesis using j(1) by (metis length_list_update nth_mem)
qed

lemma holds_not_Failed: "holds ws w i \<Longrightarrow> ws ! w \<noteq> Failed"
  by (auto simp: holds_def)

lemma holds_fun: "holds ws w i \<Longrightarrow> holds ws w j \<Longrightarrow> i = j"
  by (simp add: holds_def)

lemma wfC_resume:
  assumes wb: "wfB s" and wc: "wfC s" and h: "holds (workers s) w i"
  shows "wfC (resume c w i b s)"
proof -
  let ?k = "length (claimedTasks (trace s))"
  let ?s1 = "s\<lparr>tasks := modifyTask i (\<lambda>t. t\<lparr>result := b\<rparr>) (tasks s),
                 trace := trace s @ [FetchResolved i b]\<rparr>"
  let ?s' = "resume c w i b s"
  note B = wfBD[OF wb]
  note C = wfCD[OF wc]
  have wb1: "wfB ?s1"
    by (rule wfB_update[OF wb]) (simp_all add: modifyTask_nth)
  have ik: "i < ?k" using B(4)[OF h] .
  have il: "i < length (tasks s)" using ik B(1) by simp
  have wl: "w < length (workers s)" using h by (simp add: holds_def)
  have nF: "workers s ! w \<noteq> Failed" using holds_not_Failed[OF h] .
  have old: "FetchResolved j b' \<in> set (trace s) \<Longrightarrow> j < ?k \<and> j \<noteq> i" for j b'
    using C(2)[of j b'] C(5)[of j b' w] h by (cases "j < ?k") auto
  show ?thesis
  proof (cases "?k < length (tasks s)")
    case True
    have ts: "tasks ?s' = modifyTask ?k (\<lambda>t. t\<lparr>started := True\<rparr>)
                (modifyTask i (\<lambda>t. t\<lparr>result := b\<rparr>) (tasks s))"
      and ws: "workers ?s' = (workers s)[w := claimed c ?k]"
      and tr: "trace ?s' = trace s @ FetchResolved i b # claimTrace c w ?k"
      using claim_explicit(1)[OF wb1, of c w] True by (simp_all add: resume_alt Let_def)
    have k': "length (claimedTasks (trace ?s')) = Suc ?k" by (simp add: tr)
    have hs: "holds (workers ?s') w' j \<longleftrightarrow> (if w' = w then j = ?k else holds (workers s) w' j)"
      for w' j using wl by (auto simp: ws holds_update)
    show ?thesis
    proof (rule wfCI)
      fix j assume "length (claimedTasks (trace ?s')) \<le> j"
      then have j: "Suc ?k \<le> j" by (simp add: k')
      then show "quiet j (trace ?s')"
        using C(1)[of j] by (auto simp: tr quiet_def claimTrace_def)
      show "FetchResolved j b' \<notin> set (trace ?s')" for b'
        using C(2)[of j b'] j ik by (auto simp: tr)
    next
      fix w' j assume a: "w' < length (workers ?s')" "workers ?s' ! w' = AwaitCache j"
      show "quiet j (trace ?s')"
      proof (cases "w' = w")
        case True
        then have "j = ?k" "cachesAvailable c"
          using a wl by (auto simp: ws claimed_AwaitCache)
        then show ?thesis using C(1)[of ?k] by (auto simp: tr quiet_def claimTrace_def)
      next
        case False
        then have o: "w' < length (workers s)" "workers s ! w' = AwaitCache j"
          using a by (auto simp: ws)
        then have "holds (workers s) w' j" by (simp add: holds_def)
        then have "j < ?k" using B(4) by blast
        then show ?thesis using C(3)[OF o] by (auto simp: tr quiet_def claimTrace_def)
      qed
    next
      fix j b' assume a: "FetchResolved j b' \<in> set (trace ?s')"
      then have cs: "(j = i \<and> b' = b) \<or> FetchResolved j b' \<in> set (trace s)"
        by (auto simp: tr)
      have jk: "j < ?k" using cs ik old by auto
      have jl: "j < length (tasks s)" using jk B(1) by simp
      show "result (tasks ?s' ! j) = b'"
      proof (cases "j = i")
        case True
        then have "b' = b" using cs old by auto
        then show ?thesis using True jk jl by (simp add: ts modifyTask_nth)
      next
        case False
        then have "FetchResolved j b' \<in> set (trace s)" using cs by auto
        then show ?thesis using C(4) False jk jl by (simp add: ts modifyTask_nth)
      qed
      show "\<not> holds (workers ?s') w' j" for w'
      proof (cases "w' = w")
        case True
        then show ?thesis using jk by (simp add: hs)
      next
        case False
        show ?thesis
        proof (cases "j = i")
          case True
          then show ?thesis using False B(5)[OF h, of w'] by (auto simp: hs)
        next
          case ji: False
          then have "FetchResolved j b' \<in> set (trace s)" using cs by auto
          then show ?thesis using False C(5) by (auto simp: hs)
        qed
      qed
    next
      fix j assume "j < length (claimedTasks (trace ?s'))"
      then have j: "j \<le> ?k" by (simp add: k')
      show "(\<exists>w'. holds (workers ?s') w' j) \<or> (\<exists>b'. FetchResolved j b' \<in> set (trace ?s')) \<or>
            Failed \<in> set (workers ?s')"
      proof (cases "j = ?k")
        case True
        then have "holds (workers ?s') w j" by (simp add: hs)
        then show ?thesis by blast
      next
        case False
        then have "j < ?k" using j by simp
        from C(6)[OF this] show ?thesis
        proof (elim disjE exE)
          fix w' assume hw: "holds (workers s) w' j"
          show ?thesis
          proof (cases "w' = w")
            case True
            then have "j = i" using hw h holds_fun by blast
            then show ?thesis by (auto simp: tr)
          next
            case False
            then have "holds (workers ?s') w' j" using hw by (simp add: hs)
            then show ?thesis by blast
          qed
        next
          fix b' assume "FetchResolved j b' \<in> set (trace s)"
          then show ?thesis by (auto simp: tr)
        next
          assume "Failed \<in> set (workers s)"
          then show ?thesis using set_update_keep[OF _ nF] by (simp add: ws)
        qed
      qed
    qed
  next
    case False
    have ts: "tasks ?s' = modifyTask i (\<lambda>t. t\<lparr>result := b\<rparr>) (tasks s)"
      and ws: "workers ?s' = (workers s)[w := Exited]"
      and tr: "trace ?s' = trace s @ [FetchResolved i b]"
      using claim_explicit(2)[OF wb1, of c w] False by (simp_all add: resume_alt Let_def)
    have k': "length (claimedTasks (trace ?s')) = ?k" by (simp add: tr)
    have hs: "holds (workers ?s') w' j \<longleftrightarrow> w' \<noteq> w \<and> holds (workers s) w' j"
      for w' j using wl by (auto simp: ws holds_update)
    show ?thesis
    proof (rule wfCI)
      fix j assume "length (claimedTasks (trace ?s')) \<le> j"
      then have j: "?k \<le> j" by (simp add: k')
      then show "quiet j (trace ?s')"
        using C(1)[of j] by (auto simp: tr quiet_def)
      show "FetchResolved j b' \<notin> set (trace ?s')" for b'
        using C(2)[of j b'] j ik by (auto simp: tr)
    next
      fix w' j assume a: "w' < length (workers ?s')" "workers ?s' ! w' = AwaitCache j"
      then have "w' \<noteq> w" using wl by (auto simp: ws)
      then have o: "w' < length (workers s)" "workers s ! w' = AwaitCache j"
        using a by (auto simp: ws)
      then show "quiet j (trace ?s')" using C(3)[OF o] by (auto simp: tr quiet_def)
    next
      fix j b' assume a: "FetchResolved j b' \<in> set (trace ?s')"
      then have cs: "(j = i \<and> b' = b) \<or> FetchResolved j b' \<in> set (trace s)"
        by (auto simp: tr)
      have jk: "j < ?k" using cs ik old by auto
      have jl: "j < length (tasks s)" using jk B(1) by simp
      show "result (tasks ?s' ! j) = b'"
      proof (cases "j = i")
        case True
        then have "b' = b" using cs old by auto
        then show ?thesis using True jl by (simp add: ts modifyTask_nth)
      next
        case False
        then have "FetchResolved j b' \<in> set (trace s)" using cs by auto
        then show ?thesis using C(4) False jl by (simp add: ts modifyTask_nth)
      qed
      show "\<not> holds (workers ?s') w' j" for w'
      proof (cases "j = i")
        case True
        then show ?thesis using B(5)[OF h, of w'] by (auto simp: hs)
      next
        case ji: False
        then have "FetchResolved j b' \<in> set (trace s)" using cs by auto
        then show ?thesis using C(5) by (auto simp: hs)
      qed
    next
      fix j assume "j < length (claimedTasks (trace ?s'))"
      then have "j < ?k" by (simp add: k')
      from C(6)[OF this]
      show "(\<exists>w'. holds (workers ?s') w' j) \<or> (\<exists>b'. FetchResolved j b' \<in> set (trace ?s')) \<or>
            Failed \<in> set (workers ?s')"
      proof (elim disjE exE)
        fix w' assume hw: "holds (workers s) w' j"
        show ?thesis
        proof (cases "w' = w")
          case True
          then have "j = i" using hw h holds_fun by blast
          then show ?thesis by (auto simp: tr)
        next
          case False
          then have "holds (workers ?s') w' j" using hw by (simp add: hs)
          then show ?thesis by blast
        qed
      next
        fix b' assume "FetchResolved j b' \<in> set (trace s)"
        then show ?thesis by (auto simp: tr)
      next
        assume "Failed \<in> set (workers s)"
        then show ?thesis using set_update_keep[OF _ nF] by (simp add: ws)
      qed
    qed
  qed
qed

lemma wfC_spawn:
  assumes wb: "wfB s" and wc: "wfC s"
    and ts0: "tasks s' = tasks (snd (claimNext c (length (workers s)) s))"
    and tr0: "trace s' = trace (snd (claimNext c (length (workers s)) s))"
    and ws0: "workers s' = workers s @ [fst (claimNext c (length (workers s)) s)]"
  shows "wfC s'"
proof -
  let ?k = "length (claimedTasks (trace s))"
  let ?n = "length (workers s)"
  note B = wfBD[OF wb]
  note C = wfCD[OF wc]
  have old: "FetchResolved j b' \<in> set (trace s) \<Longrightarrow> j < ?k" for j b'
    using C(2)[of j b'] by (cases "j < ?k") auto
  show ?thesis
  proof (cases "?k < length (tasks s)")
    case True
    have ts: "tasks s' = modifyTask ?k (\<lambda>t. t\<lparr>started := True\<rparr>) (tasks s)"
      and ws: "workers s' = workers s @ [claimed c ?k]"
      and tr: "trace s' = trace s @ claimTrace c ?n ?k"
      using claim_explicit(1)[OF wb, of c ?n] True ts0 tr0 ws0 by simp_all
    have k': "length (claimedTasks (trace s')) = Suc ?k" by (simp add: tr)
    have hs: "holds (workers s') w' j \<longleftrightarrow> (if w' = ?n then j = ?k else holds (workers s) w' j)"
      for w' j by (auto simp: ws holds_append)
    show ?thesis
    proof (rule wfCI)
      fix j assume "length (claimedTasks (trace s')) \<le> j"
      then have j: "Suc ?k \<le> j" by (simp add: k')
      then show "quiet j (trace s')"
        using C(1)[of j] by (auto simp: tr quiet_def claimTrace_def)
      show "FetchResolved j b' \<notin> set (trace s')" for b'
        using C(2)[of j b'] j by (auto simp: tr)
    next
      fix w' j assume a: "w' < length (workers s')" "workers s' ! w' = AwaitCache j"
      show "quiet j (trace s')"
      proof (cases "w' = ?n")
        case True
        then have "j = ?k" "cachesAvailable c"
          using a by (auto simp: ws claimed_AwaitCache)
        then show ?thesis using C(1)[of ?k] by (auto simp: tr quiet_def claimTrace_def)
      next
        case False
        then have o: "w' < length (workers s)" "workers s ! w' = AwaitCache j"
          using a by (auto simp: ws nth_append)
        then have "holds (workers s) w' j" by (simp add: holds_def)
        then have "j < ?k" using B(4) by blast
        then show ?thesis using C(3)[OF o] by (auto simp: tr quiet_def claimTrace_def)
      qed
    next
      fix j b' assume a: "FetchResolved j b' \<in> set (trace s')"
      then have o: "FetchResolved j b' \<in> set (trace s)" by (auto simp: tr)
      have jk: "j < ?k" using old[OF o] .
      have jl: "j < length (tasks s)" using jk B(1) by simp
      show "result (tasks s' ! j) = b'"
        using C(4)[OF o] jk jl by (simp add: ts modifyTask_nth)
      show "\<not> holds (workers s') w' j" for w'
        using C(5)[OF o] jk by (auto simp: hs)
    next
      fix j assume "j < length (claimedTasks (trace s'))"
      then have j: "j \<le> ?k" by (simp add: k')
      show "(\<exists>w'. holds (workers s') w' j) \<or> (\<exists>b'. FetchResolved j b' \<in> set (trace s')) \<or>
            Failed \<in> set (workers s')"
      proof (cases "j = ?k")
        case True
        then have "holds (workers s') ?n j" by (simp add: hs)
        then show ?thesis by blast
      next
        case False
        then have jk: "j < ?k" using j by simp
        from C(6)[OF this] show ?thesis
        proof (elim disjE exE)
          fix w' assume hw: "holds (workers s) w' j"
          then have "w' \<noteq> ?n" by (auto simp: holds_def)
          then have "holds (workers s') w' j" using hw by (simp add: hs)
          then show ?thesis by blast
        next
          fix b' assume "FetchResolved j b' \<in> set (trace s)"
          then show ?thesis by (auto simp: tr)
        next
          assume "Failed \<in> set (workers s)"
          then show ?thesis by (simp add: ws)
        qed
      qed
    qed
  next
    case False
    have ts: "tasks s' = tasks s"
      and ws: "workers s' = workers s @ [Exited]"
      and tr: "trace s' = trace s"
      using claim_explicit(2)[OF wb, of c ?n] False ts0 tr0 ws0 by simp_all
    have hs: "holds (workers s') w' j \<longleftrightarrow> holds (workers s) w' j"
      for w' j by (cases "w' = length (workers s)") (auto simp: ws holds_def nth_append)
    show ?thesis
    proof (rule wfCI)
      fix w' j assume a: "w' < length (workers s')" "workers s' ! w' = AwaitCache j"
      then have "w' \<noteq> ?n" by (auto simp: ws)
      then have o: "w' < length (workers s)" "workers s ! w' = AwaitCache j"
        using a by (auto simp: ws nth_append)
      then show "quiet j (trace s')" using C(3)[OF o] by (simp add: tr)
    next
      fix j assume "j < length (claimedTasks (trace s'))"
      then have "j < ?k" by (simp add: tr)
      have f: "Failed \<in> set (workers s) \<Longrightarrow> Failed \<in> set (workers s')" by (simp add: ws)
      from C(6)[OF \<open>j < ?k\<close>] f
      show "(\<exists>w'. holds (workers s') w' j) \<or> (\<exists>b'. FetchResolved j b' \<in> set (trace s')) \<or>
            Failed \<in> set (workers s')"
        unfolding hs tr by blast
    qed (use C in \<open>auto simp: tr ts hs\<close>)
  qed
qed

lemma wfC_spawnThread: "wfB s \<Longrightarrow> wfC s \<Longrightarrow> wfC (spawnThread c s)"
  by (rule wfC_spawn[of s _ c]) simp_all

lemma wf_spawnThreads:
  "wfB s \<Longrightarrow> wfC s \<Longrightarrow> wfC (spawnThreads c k s)"
  by (induction k arbitrary: s) (simp_all add: wfB_spawnThread wfC_spawnThread)

lemma wfC_start: "wfB s \<Longrightarrow> wfC s \<Longrightarrow> wfC (start c s)"
proof -
  assume a: "wfB s" "wfC s"
  have "wfB (s\<lparr>phase := Running\<rparr>)" "wfC (s\<lparr>phase := Running\<rparr>)"
    using a by (simp_all add: wfB_def wfC_def)
  then have "wfC (spawnThreads c (nat (nMaxParallel c)) (s\<lparr>phase := Running\<rparr>))"
    by (rule wf_spawnThreads)
  then show ?thesis unfolding start_def by (simp add: wfC_def)
qed

text \<open>A step of thread \<open>w\<close> on its own task \<open>i\<close> that neither claims nor resolves.\<close>

lemma wfC_update:
  assumes wb: "wfB s" and wc: "wfC s" and h: "holds (workers s) w i"
    and len: "length (tasks s') = length (tasks s)"
    and res: "\<And>j. j < length (tasks s) \<Longrightarrow> result (tasks s' ! j) = result (tasks s ! j)"
    and tr: "trace s' = trace s @ ex"
    and ex: "claimedTasks ex = []" "\<And>j b. FetchResolved j b \<notin> set ex" "\<And>j. j \<noteq> i \<Longrightarrow> quiet j ex"
    and ws: "workers s' = (workers s)[w := x]"
    and x: "\<And>j. x \<noteq> AwaitCache j" "taskOf x = Some i \<or> x = Failed"
  shows "wfC s'"
proof -
  let ?k = "length (claimedTasks (trace s))"
  note B = wfBD[OF wb]
  note C = wfCD[OF wc]
  have ik: "i < ?k" using B(4)[OF h] .
  have wl: "w < length (workers s)" using h by (simp add: holds_def)
  have nF: "workers s ! w \<noteq> Failed" using holds_not_Failed[OF h] .
  have k': "length (claimedTasks (trace s')) = ?k" by (simp add: tr ex(1))
  have fr: "FetchResolved j b \<in> set (trace s') \<longleftrightarrow> FetchResolved j b \<in> set (trace s)" for j b
    using ex(2) by (auto simp: tr)
  have old: "FetchResolved j b' \<in> set (trace s) \<Longrightarrow> j < ?k" for j b'
    using C(2)[of j b'] by (cases "j < ?k") auto
  have hs: "holds (workers s') w' j \<Longrightarrow> holds (workers s) w' j" for w' j
    using h x(2) by (auto simp: ws holds_update split: if_splits)
  show ?thesis
  proof (rule wfCI)
    fix j assume "length (claimedTasks (trace s')) \<le> j"
    then have j: "?k \<le> j" by (simp add: k')
    then have "j \<noteq> i" using ik by simp
    then show "quiet j (trace s')" using C(1)[OF j] ex(3)[of j] by (simp add: tr quiet_append)
    show "FetchResolved j b' \<notin> set (trace s')" for b'
      using C(2)[OF j] by (simp add: fr)
  next
    fix w' j assume a: "w' < length (workers s')" "workers s' ! w' = AwaitCache j"
    then have ww: "w' \<noteq> w" using x(1) wl by (auto simp: ws)
    then have o: "w' < length (workers s)" "workers s ! w' = AwaitCache j"
      using a by (auto simp: ws)
    then have "holds (workers s) w' j" by (simp add: holds_def)
    then have "j \<noteq> i" using B(5)[OF h, of w'] ww by auto
    then show "quiet j (trace s')" using C(3)[OF o] ex(3)[of j] by (simp add: tr quiet_append)
  next
    fix j b' assume "FetchResolved j b' \<in> set (trace s')"
    then have o: "FetchResolved j b' \<in> set (trace s)" by (simp add: fr)
    have "j < length (tasks s)" using old[OF o] B(1) by simp
    then show "result (tasks s' ! j) = b'" using C(4)[OF o] res by simp
    show "\<not> holds (workers s') w' j" for w' using C(5)[OF o] hs by blast
  next
    fix j assume "j < length (claimedTasks (trace s'))"
    then have "j < ?k" by (simp add: k')
    from C(6)[OF this]
    show "(\<exists>w'. holds (workers s') w' j) \<or> (\<exists>b'. FetchResolved j b' \<in> set (trace s')) \<or>
          Failed \<in> set (workers s')"
    proof (elim disjE exE)
      fix w' assume hw: "holds (workers s) w' j"
      show ?thesis
      proof (cases "w' = w")
        case True
        then have ji: "j = i" using hw h holds_fun by blast
        from x(2) show ?thesis
        proof
          assume "taskOf x = Some i"
          then have "holds (workers s') w j" using wl ji by (simp add: ws holds_update)
          then show ?thesis by blast
        next
          assume "x = Failed"
          then have "Failed \<in> set (workers s')" using wl by (simp add: ws set_update_memI)
          then show ?thesis by blast
        qed
      next
        case False
        then have "holds (workers s') w' j" using hw by (simp add: ws holds_update)
        then show ?thesis by blast
      qed
    next
      fix b' assume "FetchResolved j b' \<in> set (trace s)"
      then show ?thesis by (auto simp: fr)
    next
      assume "Failed \<in> set (workers s)"
      then show ?thesis using set_update_keep[OF _ nF] by (simp add: ws)
    qed
  qed
qed

lemma wfC_setWorker:
  assumes "wfB s" "wfC s" "holds (workers s) w i" "\<And>j. x \<noteq> AwaitCache j"
    "taskOf x = Some i \<or> x = Failed"
  shows "wfC (setWorker w x s)"
  by (rule wfC_update[OF assms(1-3), where ex="[]" and x=x]) (simp_all add: assms quiet_def)

lemma wfC_step: "wfB s \<Longrightarrow> wfC s \<Longrightarrow> wfC (step c s e)"
proof (cases rule: step_cases[of c s e])
  case idle
  assume "wfC s" then show ?thesis using idle by simp
next
  case (probe_fail j r err)
  assume "wfC s" then show ?thesis using probe_fail(6) by (simp add: wfC_def)
next
  case (probe_wait j r v)
  assume "wfC s" then show ?thesis using probe_wait(7) by (simp add: wfC_def)
next
  case (probe_start j r v sizes)
  assume "wfB s" "wfC s"
  then have "wfB (s\<lparr>sizeArr := (sizeArr s)[j := Some v], totalSize := sumArr sizes\<rparr>)"
    "wfC (s\<lparr>sizeArr := (sizeArr s)[j := Some v], totalSize := sumArr sizes\<rparr>)"
    by (simp_all add: wfB_def wfC_def)
  then show ?thesis using probe_start(7) wfC_start by simp
next
  case (hit w i b)
  assume "wfB s" "wfC s" then show ?thesis
    using hit wfC_resume holds_workerAt[OF hit(2)] by simp
next
  case (miss w i)
  assume a: "wfB s" "wfC s"
  have "wfC (setWorker w (AwaitXhr i) (s\<lparr>trace := trace s @ [XhrSend i]\<rparr>))"
    by (rule wfC_update[OF a holds_workerAt[OF miss(2)], where ex="[XhrSend i]" and x="AwaitXhr i"])
      (simp_all add: quiet_def)
  then show ?thesis using miss(3) by simp
next
  case (progress w i l t)
  assume a: "wfB s" "wfC s"
  note h = holds_workerAt[OF progress(2)]
  have "(workers s)[w := AwaitXhr i] = workers s"
    using workerAt_eq[OF progress(2)] by (simp add: list_update_same_conv)
  then have wsid: "workers s = (workers s)[w := AwaitXhr i]" by simp
  have "wfC (onProgress c i l t s)"
    by (rule wfC_update[OF a h, where x="AwaitXhr i" and
          ex="TaskProgress i l t # (if reportProgress c
            then [Aggregate (sumArr (map sizeLoaded (tasks (onProgress c i l t s)))) (totalSize s)]
            else [])"])
      (use wsid in \<open>auto simp: onProgress_trace modifyTask_nth quiet_def\<close>)
  then show ?thesis using progress(3) by simp
next
  case (load_null w i)
  assume "wfB s" "wfC s" then show ?thesis
    using load_null(3) wfC_setWorker[of s w i "Stalled i"] holds_workerAt[OF load_null(2)] by simp
next
  case (load_put w i b)
  assume "wfB s" "wfC s" then show ?thesis
    using load_put(4) wfC_setWorker[of s w i "AwaitPut i b"] holds_workerAt[OF load_put(2)] by simp
next
  case (load_done w i b)
  assume "wfB s" "wfC s" then show ?thesis
    using load_done wfC_resume holds_workerAt[OF load_done(2)] by simp
next
  case (put_ok w i b)
  assume "wfB s" "wfC s" then show ?thesis
    using put_ok wfC_resume holds_workerAt[OF put_ok(2)] by simp
next
  case (put_fail w i b)
  assume "wfB s" "wfC s" then show ?thesis
    using put_fail(3) wfC_setWorker[of s w i "Stalled i"] holds_workerAt[OF put_fail(2)] by simp
next
  case (error w i)
  assume a: "wfB s" "wfC s"
  have "wfC (setWorker w Failed s)"
    using a wfC_setWorker[of s w i Failed] holds_workerAt[OF error(2)] by simp
  then show ?thesis using error(3) by (simp add: wfC_def)
qed

lemma wfC_init: "wfC (initState c)"
proof -
  have 0: "wfB \<lparr>tasks = map newTask (urls c), workers = [], sizeArr = sa, totalSize = ts,
      phase = Probing, outcome = Pending, trace = []\<rparr>" for sa ts
    by (simp add: wfB_def holds_def inOrder_def newTask_def)
  have 1: "wfC \<lparr>tasks = map newTask (urls c), workers = [], sizeArr = sa, totalSize = ts,
      phase = Probing, outcome = Pending, trace = []\<rparr>" for sa ts
    by (simp add: wfC_def holds_def quiet_def)
  show ?thesis
    using 1 wfC_start[OF 0 1]
    by (auto simp: initState_def Let_def split: option.split)
qed

lemma wfBC_foldl: "wfB s \<Longrightarrow> wfC s \<Longrightarrow> wfC (foldl (step c) s evs)"
  by (induction evs arbitrary: s) (simp_all add: wfB_step wfC_step)

lemma wfC_run: "wfC (loadBinaryResource c evs)"
  by (simp add: loadBinaryResource_def wfBC_foldl wfB_init wfC_init)

section \<open>All invariants together\<close>

lemma resume_trace:
  assumes wb: "wfB s"
  shows "trace (resume c w i b s) =
     trace s @ FetchResolved i b #
       (if length (claimedTasks (trace s)) < length (tasks s)
        then claimTrace c w (length (claimedTasks (trace s))) else [])"
proof -
  let ?s1 = "s\<lparr>tasks := modifyTask i (\<lambda>t. t\<lparr>result := b\<rparr>) (tasks s),
                 trace := trace s @ [FetchResolved i b]\<rparr>"
  have wb1: "wfB ?s1"
    by (rule wfB_update[OF wb]) (simp_all add: modifyTask_nth)
  show ?thesis
    using claim_explicit[OF wb1, of c w] by (cases "length (claimedTasks (trace s)) < length (tasks s)")
      (simp_all add: resume_alt Let_def)
qed

lemma reach_step:
  "wfA c s \<and> wfB s \<and> wfC s \<Longrightarrow> wfA c (step c s e) \<and> wfB (step c s e) \<and> wfC (step c s e)"
  by (simp add: wfA_step wfB_step wfC_step)

lemma reach_foldl:
  "wfA c s \<and> wfB s \<and> wfC s \<Longrightarrow>
   wfA c (foldl (step c) s evs) \<and> wfB (foldl (step c) s evs) \<and> wfC (foldl (step c) s evs)"
proof (induction evs arbitrary: s)
  case Nil
  then show ?case by simp
next
  case (Cons e evs)
  show ?case using Cons.IH[OF reach_step[OF Cons.prems]] by simp
qed

lemma reach_run:
  "wfA c (loadBinaryResource c evs) \<and> wfB (loadBinaryResource c evs) \<and> wfC (loadBinaryResource c evs)"
  by (simp add: wfA_run wfB_run wfC_run)

text \<open>Which operations invoke the progress callback.\<close>

lemma aggregates_claimTrace [simp]: "aggregates (claimTrace c w i) = []"
  by (simp add: claimTrace_def)

lemma claimNext_aggregates [simp]:
  "aggregates (trace (snd (claimNext c w s))) = aggregates (trace s)"
  by (simp add: claimNext_trace split: option.split)

lemma spawnThreads_aggregates [simp]:
  "aggregates (trace (spawnThreads c k s)) = aggregates (trace s)"
  by (induction k arbitrary: s) simp_all

lemma start_aggregates [simp]: "aggregates (trace (start c s)) = aggregates (trace s)"
  by (simp add: start_def)

lemma resume_aggregates [simp]: "aggregates (trace (resume c w i b s)) = aggregates (trace s)"
  by (simp add: resume_alt Let_def)

lemma onProgress_aggregates:
  "aggregates (trace (onProgress c i l t s)) =
     aggregates (trace s) @
       (if reportProgress c
        then [(sumArr (map sizeLoaded (tasks (onProgress c i l t s))), totalSize s)] else [])"
  by (simp add: onProgress_trace)

section \<open>C1: a failing transfer\<close>

text \<open>
  C1, as amended. When the request of a thread's task fails (\<^verbatim>\<open>onerror\<close>) in any state a
  call can reach, only that thread changes: it ends as failed, every other thread and the
  task list stay as they were, so the other threads go on and may complete their tasks. The
  call is rejected in that very step with the error of the first failure (\<^verbatim>\<open>Promise.all\<close>
  rejects at the first rejection, without waiting for the other threads), and whatever
  happens afterwards the outcome stays that error: a rejection carries no buffers.
\<close>

theorem transfer_failure_rejects_call:
  assumes "s = loadBinaryResource c evs" and "workerAt s w = AwaitXhr i"
    and "s' = step c s (XhrError w)"
  shows "workers s' = (workers s)[w := Failed] \<and> tasks s' = tasks s \<and> trace s' = trace s \<and>
         outcome s' = (if outcome s = Pending then Rejected (TransferFailed i) else outcome s) \<and>
         (\<exists>e. outcome s' = Rejected e \<and>
              (\<forall>evs'. outcome (foldl (step c) s' evs') = Rejected e))"
proof -
  have wf: "wfA c s" using assms(1) wfA_run by simp
  have s': "s' = reject (TransferFailed i) (setWorker w Failed s)"
    using assms(2,3) by simp
  have nres: "\<forall>r. outcome s \<noteq> Resolved r"
    using wfA_waiting(2)[OF wf assms(2)] by simp
  have out: "outcome s' = (if outcome s = Pending then Rejected (TransferFailed i) else outcome s)"
    using s' by (simp add: reject_outcome)
  then obtain e where e: "outcome s' = Rejected e"
    using nres by (cases "outcome s") auto
  have "wfA c s'" unfolding assms(3) by (rule wfA_step[OF wf])
  then have "\<forall>evs'. outcome (foldl (step c) s' evs') = Rejected e"
    using e outcome_foldl_settled[of c s'] by simp
  then show ?thesis using s' out e by simp
qed

text \<open>
  Two URLs, two threads, no cache: the first request fails while the second is in flight.
\<close>

theorem transfer_failure_rejects_call_witness:
  "workerAt (loadBinaryResource cfgTwoPlain []) 0 = AwaitXhr 0 \<and>
   workers (step cfgTwoPlain (loadBinaryResource cfgTwoPlain []) (XhrError 0)) = [Failed, AwaitXhr 1] \<and>
   outcome (step cfgTwoPlain (loadBinaryResource cfgTwoPlain []) (XhrError 0))
     = Rejected (TransferFailed 0) \<and>
   outcome (foldl (step cfgTwoPlain)
              (step cfgTwoPlain (loadBinaryResource cfgTwoPlain []) (XhrError 0))
              [Load 1 (Some [1, 2])])
     = Rejected (TransferFailed 0)"
proof -
  have h: "workerAt (loadBinaryResource cfgTwoPlain []) 0 = AwaitXhr 0"
    unfolding cfgTwoPlain_def by code_simp
  have o: "outcome (loadBinaryResource cfgTwoPlain []) = Pending"
    unfolding cfgTwoPlain_def by code_simp
  have w: "workers (loadBinaryResource cfgTwoPlain []) = [AwaitXhr 0, AwaitXhr 1]"
    unfolding cfgTwoPlain_def by code_simp
  let ?s = "loadBinaryResource cfgTwoPlain []"
  let ?s' = "step cfgTwoPlain ?s (XhrError 0)"
  note t = transfer_failure_rejects_call[OF refl h refl]
  from t have 1: "workers ?s' = (workers ?s)[0 := Failed]" by blast
  from t have 2: "outcome ?s' = (if outcome ?s = Pending then Rejected (TransferFailed 0) else outcome ?s)"
    by blast
  from t obtain e where 3: "outcome ?s' = Rejected e"
    and 4: "\<forall>evs'. outcome (foldl (step cfgTwoPlain) ?s' evs') = Rejected e" by blast
  have 5: "outcome ?s' = Rejected (TransferFailed 0)" using 2 o by (simp del: step.simps)
  have 6: "e = TransferFailed 0" using 3 5 by (simp del: step.simps)
  have 7: "outcome (foldl (step cfgTwoPlain) ?s' [Load 1 (Some [1, 2])]) = Rejected (TransferFailed 0)"
    using 4 6 by blast
  have 8: "workers ?s' = [Failed, AwaitXhr 1]" using 1 w by (simp del: step.simps)
  show ?thesis using h 8 5 7 by blast
qed

text \<open>
  C1, as stated, fails: in the same call the outcome is already the error while the second
  thread still waits for its request, and once that thread has stored its buffer
  \<open>[1, 2]\<close> the outcome is still the error alone.
\<close>

theorem failed_call_returns_error_only:
  "outcome (loadBinaryResource cfgTwoPlain [XhrError 0]) = Rejected (TransferFailed 0) \<and>
   workers (loadBinaryResource cfgTwoPlain [XhrError 0]) = [Failed, AwaitXhr 1] \<and>
   outcome (loadBinaryResource cfgTwoPlain [XhrError 0, Load 1 (Some [1, 2])])
     = Rejected (TransferFailed 0) \<and>
   map result (tasks (loadBinaryResource cfgTwoPlain [XhrError 0, Load 1 (Some [1, 2])]))
     = [[], [1, 2]]"
  unfolding cfgTwoPlain_def by code_simp

section \<open>C2: the number of threads\<close>

text \<open>While the threads are being spawned, thread \<open>w\<close> claims task \<open>w\<close> if there is one.\<close>

lemma spawnThread_wfS:
  assumes wb: "wfB s" and ws: "wfS c s" and len: "length (tasks s) = length (urls c)"
    and k: "length (claimedTasks (trace s)) = min (length (workers s)) (length (urls c))"
  shows "wfS c (spawnThread c s) \<and>
         length (claimedTasks (trace (spawnThread c s))) =
           min (length (workers (spawnThread c s))) (length (urls c))"
proof -
  let ?m = "length (workers s)"
  let ?n = "length (urls c)"
  have S1: "\<And>w. w < ?m \<Longrightarrow> (w < ?n \<longrightarrow> Claim w w \<in> set (trace s)) \<and> (?n \<le> w \<longrightarrow> workers s ! w = Exited)"
    and S2: "\<And>w i. Claim w i \<in> set (trace s) \<Longrightarrow> w < ?m \<and> w < ?n"
    using ws unfolding wfS_def by blast+
  show ?thesis
  proof (cases "?m < ?n")
    case True
    then have kk: "length (claimedTasks (trace s)) = ?m" using k by simp
    have e: "fst (claimNext c ?m s) = claimed c ?m"
      "trace (snd (claimNext c ?m s)) = trace s @ claimTrace c ?m ?m"
      using claim_explicit(1)[OF wb, of c ?m] True kk len by simp_all
    have "wfS c (spawnThread c s)"
      unfolding wfS_def
    proof (intro conjI allI impI)
      fix w assume w: "w < length (workers (spawnThread c s))"
      show "w < ?n \<Longrightarrow> Claim w w \<in> set (trace (spawnThread c s))"
        using S1[of w] w by (cases "w = ?m") (auto simp: e claimTrace_def)
      show "?n \<le> w \<Longrightarrow> workers (spawnThread c s) ! w = Exited"
        using S1[of w] w True by (cases "w = ?m") (auto simp: e nth_append)
    next
      fix w i assume "Claim w i \<in> set (trace (spawnThread c s))"
      then have "Claim w i \<in> set (trace s) \<or> w = ?m"
        by (auto simp: e claimTrace_def split: if_splits)
      then show "w < length (workers (spawnThread c s))" "w < ?n"
        using S2[of w i] True by auto
    qed
    then show ?thesis using True by (simp add: e kk)
  next
    case False
    then have kk: "length (claimedTasks (trace s)) = ?n" using k by simp
    have e: "fst (claimNext c ?m s) = Exited"
      "trace (snd (claimNext c ?m s)) = trace s"
      using claim_explicit(2)[OF wb, of c ?m] False kk len by simp_all
    have "wfS c (spawnThread c s)"
      unfolding wfS_def
    proof (intro conjI allI impI)
      fix w assume w: "w < length (workers (spawnThread c s))"
      show "w < ?n \<Longrightarrow> Claim w w \<in> set (trace (spawnThread c s))"
        using S1[of w] w False by (cases "w = ?m") (auto simp: e)
      show "?n \<le> w \<Longrightarrow> workers (spawnThread c s) ! w = Exited"
        using S1[of w] w by (cases "w = ?m") (auto simp: e nth_append)
    next
      fix w i assume "Claim w i \<in> set (trace (spawnThread c s))"
      then show "w < length (workers (spawnThread c s))" "w < ?n"
        using S2[of w i] by (auto simp: e)
    qed
    then show ?thesis using False by (simp add: e kk)
  qed
qed

lemma spawnThreads_wfS:
  assumes "wfB s" "wfS c s" "length (tasks s) = length (urls c)"
    "length (claimedTasks (trace s)) = min (length (workers s)) (length (urls c))"
  shows "wfS c (spawnThreads c k s)"
  using assms
proof (induction k arbitrary: s)
  case 0
  then show ?case by simp
next
  case (Suc k)
  note st = spawnThread_wfS[OF Suc.prems]
  show ?case
    using Suc.IH[of "spawnThread c s"] st wfB_spawnThread[OF Suc.prems(1), of c] Suc.prems(3)
    by simp
qed

lemma start_wfS:
  assumes "tasks s = map newTask (urls c)" "workers s = []" "trace s = []"
  shows "wfS c (start c s)"
proof -
  let ?s0 = "s\<lparr>phase := Running\<rparr>"
  have "wfB ?s0" using assms by (simp add: wfB_def holds_def inOrder_def newTask_def)
  moreover have "wfS c ?s0" using assms by (simp add: wfS_def)
  ultimately have "wfS c (spawnThreads c (nat (nMaxParallel c)) ?s0)"
    using assms by (intro spawnThreads_wfS) simp_all
  then show ?thesis by (simp add: start_def wfS_def)
qed

text \<open>A step of a waiting thread \<open>w\<close>: only its own entry changes, only it can claim.\<close>

lemma wfS_update:
  assumes ws: "wfS c s" and w: "w < length (workers s)" "workers s ! w \<noteq> Exited"
    and wk: "workers s' = (workers s)[w := x]"
    and tr: "trace s' = trace s @ ex"
    and ex: "\<And>w' i. Claim w' i \<in> set ex \<Longrightarrow> w' = w"
  shows "wfS c s'"
proof -
  have S1: "\<And>w. w < length (workers s) \<Longrightarrow>
      (w < length (urls c) \<longrightarrow> Claim w w \<in> set (trace s)) \<and>
      (length (urls c) \<le> w \<longrightarrow> workers s ! w = Exited)"
    and S2: "\<And>w i. Claim w i \<in> set (trace s) \<Longrightarrow> w < length (workers s) \<and> w < length (urls c)"
    using ws unfolding wfS_def by blast+
  have wn: "w < length (urls c)" using S1[OF w(1)] w(2) by auto
  show ?thesis
    unfolding wfS_def
  proof (intro conjI allI impI)
    fix w' assume a: "w' < length (workers s')"
    then have b: "w' < length (workers s)" by (simp add: wk)
    show "w' < length (urls c) \<Longrightarrow> Claim w' w' \<in> set (trace s')"
      using S1[OF b] by (simp add: tr)
    show "length (urls c) \<le> w' \<Longrightarrow> workers s' ! w' = Exited"
      using S1[OF b] wn by (auto simp: wk)
  next
    fix w' i assume "Claim w' i \<in> set (trace s')"
    then have "Claim w' i \<in> set (trace s) \<or> w' = w" using ex by (auto simp: tr)
    then show "w' < length (workers s')" "w' < length (urls c)"
      using S2[of w' i] w(1) wn by (auto simp: wk)
  qed
qed

lemma resume_workers:
  "workers (resume c w i b s) =
     (workers s)[w := fst (claimNext c w
        (s\<lparr>tasks := modifyTask i (\<lambda>t. t\<lparr>result := b\<rparr>) (tasks s),
           trace := trace s @ [FetchResolved i b]\<rparr>))]"
  by (simp add: resume_alt Let_def)

lemma wfS_resume:
  assumes "wfB s" "wfS c s" "workerAt s w = x" "x \<noteq> Exited"
  shows "wfS c (resume c w i b s)"
proof (rule wfS_update[OF assms(2)])
  show "w < length (workers s)" "workers s ! w \<noteq> Exited"
    using workerAt_eq[OF assms(3,4)] assms(4) by auto
  show "workers (resume c w i b s) = (workers s)[w := fst (claimNext c w
        (s\<lparr>tasks := modifyTask i (\<lambda>t. t\<lparr>result := b\<rparr>) (tasks s),
           trace := trace s @ [FetchResolved i b]\<rparr>))]"
    by (rule resume_workers)
  show "trace (resume c w i b s) = trace s @ FetchResolved i b #
       (if length (claimedTasks (trace s)) < length (tasks s)
        then claimTrace c w (length (claimedTasks (trace s))) else [])"
    by (rule resume_trace[OF assms(1)])
  show "w' = w" if "Claim w' j \<in> set (FetchResolved i b #
       (if length (claimedTasks (trace s)) < length (tasks s)
        then claimTrace c w (length (claimedTasks (trace s))) else []))" for w' j
    using that by (auto simp: claimTrace_def split: if_splits)
qed

lemma wfS_setWorker:
  assumes "wfS c s" "workerAt s w = x" "x \<noteq> Exited"
  shows "wfS c (setWorker w y s)"
  by (rule wfS_update[OF assms(1), where w=w and x=y and ex="[]"])
    (use workerAt_eq[OF assms(2,3)] assms(3) in auto)

lemma wfS_step:
  assumes wa: "wfA c s" and wb: "wfB s" and ws: "wfS c s"
  shows "wfS c (step c s e)"
proof (cases rule: step_cases[of c s e])
  case idle
  then show ?thesis using ws by simp
next
  case (probe_fail j r err)
  then show ?thesis using ws by (simp add: wfS_def)
next
  case (probe_wait j r v)
  then show ?thesis using ws by (simp add: wfS_def)
next
  case (probe_start j r v sizes)
  have "wfS c (start c (s\<lparr>sizeArr := (sizeArr s)[j := Some v], totalSize := sumArr sizes\<rparr>))"
    by (rule start_wfS) (use wa probe_start(2) in \<open>simp_all add: wfA_def\<close>)
  then show ?thesis using probe_start(7) by simp
next
  case (hit w i b)
  then show ?thesis using wfS_resume[OF wb ws hit(2)] by simp
next
  case (miss w i)
  have "wfS c (setWorker w (AwaitXhr i) (s\<lparr>trace := trace s @ [XhrSend i]\<rparr>))"
    by (rule wfS_update[OF ws, where w=w and x="AwaitXhr i" and ex="[XhrSend i]"])
      (use workerAt_eq[OF miss(2)] in auto)
  then show ?thesis using miss(3) by simp
next
  case (progress w i l t)
  have "(workers s)[w := AwaitXhr i] = workers s"
    using workerAt_eq[OF progress(2)] by (simp add: list_update_same_conv)
  then have wsid: "workers s = (workers s)[w := AwaitXhr i]" by simp
  have "wfS c (onProgress c i l t s)"
    by (rule wfS_update[OF ws, where w=w and x="AwaitXhr i" and
          ex="TaskProgress i l t # (if reportProgress c
            then [Aggregate (sumArr (map sizeLoaded (tasks (onProgress c i l t s)))) (totalSize s)]
            else [])"])
      (use workerAt_eq[OF progress(2)] wsid in \<open>auto simp: onProgress_trace\<close>)
  then show ?thesis using progress(3) by simp
next
  case (load_null w i)
  then show ?thesis using wfS_setWorker[OF ws load_null(2)] by simp
next
  case (load_put w i b)
  then show ?thesis using wfS_setWorker[OF ws load_put(2)] by simp
next
  case (load_done w i b)
  then show ?thesis using wfS_resume[OF wb ws load_done(2)] by simp
next
  case (put_ok w i b)
  then show ?thesis using wfS_resume[OF wb ws put_ok(2)] by simp
next
  case (put_fail w i b)
  then show ?thesis using wfS_setWorker[OF ws put_fail(2)] by simp
next
  case (error w i)
  have "wfS c (setWorker w Failed s)" using wfS_setWorker[OF ws error(2)] by simp
  then show ?thesis using error(3) by (simp add: wfS_def)
qed

lemma wfS_init: "wfS c (initState c)"
proof -
  have 0: "wfS c (start c \<lparr>tasks = map newTask (urls c), workers = [], sizeArr = sa,
      totalSize = ts, phase = Probing, outcome = Pending, trace = []\<rparr>)" for sa ts
    by (rule start_wfS) simp_all
  have 1: "wfS c \<lparr>tasks = map newTask (urls c), workers = [], sizeArr = sa,
      totalSize = ts, phase = Probing, outcome = Pending, trace = []\<rparr>" for sa ts
    by (simp add: wfS_def)
  show ?thesis using 0 1 by (auto simp: initState_def Let_def split: option.split)
qed

lemma wfS_run: "wfS c (loadBinaryResource c evs)"
proof (induction evs rule: rev_induct)
  case Nil
  then show ?case by (simp add: loadBinaryResource_def wfS_init)
next
  case (snoc e evs)
  then show ?case using wfS_step[OF wfA_run wfB_run] by (simp add: run_snoc)
qed

lemma spawnThreads_no_tasks:
  "tasks s = [] \<Longrightarrow>
   workers (spawnThreads c k s) = workers s @ replicate k Exited \<and>
   trace (spawnThreads c k s) = trace s \<and> tasks (spawnThreads c k s) = []"
proof (induction k arbitrary: s)
  case 0
  then show ?case by simp
next
  case (Suc k)
  have "tasks (spawnThread c s) = []" "workers (spawnThread c s) = workers s @ [Exited]"
    "trace (spawnThread c s) = trace s"
    using Suc.prems by (simp_all add: claimNext_fst claimNext_tasks claimNext_trace)
  then show ?case using Suc.IH[of "spawnThread c s"] by (simp add: replicate_app_Cons_same)
qed

lemma no_urls_init:
  assumes "urls c = []"
  shows "outcome (initState c) = Resolved (Many []) \<and> trace (initState c) = [] \<and>
         phase (initState c) = Running \<and>
         workers (initState c) = replicate (nat (nMaxParallel c)) Exited"
proof -
  have "outcome (start c s0) = Resolved (Many []) \<and> trace (start c s0) = [] \<and>
        phase (start c s0) = Running \<and>
        workers (start c s0) = replicate (nat (nMaxParallel c)) Exited"
    if "tasks s0 = []" "workers s0 = []" "trace s0 = []" "outcome s0 = Pending" for s0
    using that spawnThreads_no_tasks[of "s0\<lparr>phase := Running\<rparr>" c "nat (nMaxParallel c)"]
    by (simp add: start_def settle_def finalResult_def list_all_length)
  then show ?thesis using assms by (simp add: initState_def Let_def)
qed

lemma no_threads_state:
  assumes "nMaxParallel c \<le> 0"
  shows "trace (loadBinaryResource c evs) = [] \<and>
         (phase (loadBinaryResource c evs) = Running \<longrightarrow>
            outcome (loadBinaryResource c evs) = Resolved (finalResult (map newTask (urls c))))"
proof (induction evs rule: rev_induct)
  case Nil
  have "trace (start c s0) = [] \<and> outcome (start c s0) = Resolved (finalResult (tasks s0))"
    if "workers s0 = []" "trace s0 = []" "outcome s0 = Pending" for s0
    using that assms by (simp add: start_def settle_def)
  then show ?case
    by (auto simp: loadBinaryResource_def initState_def Let_def split: option.split)
next
  case (snoc e evs)
  let ?s = "loadBinaryResource c evs"
  have wa: "wfA c ?s" by (rule wfA_run)
  have st: "loadBinaryResource c (evs @ [e]) = step c ?s e" by (simp add: run_snoc)
  have nw: "workerAt ?s w = Exited" for w
  proof (cases "phase ?s = Running")
    case True
    then have "workers ?s = []" using wa assms by (simp add: wfA_def)
    then show ?thesis by (simp add: workerAt_def)
  next
    case False
    then have "workers ?s = []" using wa by (simp add: wfA_def)
    then show ?thesis by (simp add: workerAt_def)
  qed
  show ?case
    unfolding st
  proof (cases rule: step_cases[of c ?s e])
    case idle
    then show "trace (step c ?s e) = [] \<and>
         (phase (step c ?s e) = Running \<longrightarrow>
            outcome (step c ?s e) = Resolved (finalResult (map newTask (urls c))))"
      using snoc.IH by simp
  next
    case (probe_fail j r err)
    then show "trace (step c ?s e) = [] \<and>
         (phase (step c ?s e) = Running \<longrightarrow>
            outcome (step c ?s e) = Resolved (finalResult (map newTask (urls c))))"
      using snoc.IH by simp
  next
    case (probe_wait j r v)
    then show "trace (step c ?s e) = [] \<and>
         (phase (step c ?s e) = Running \<longrightarrow>
            outcome (step c ?s e) = Resolved (finalResult (map newTask (urls c))))"
      using snoc.IH by simp
  next
    case (probe_start j r v sizes)
    have "workers ?s = []" "trace ?s = []" "tasks ?s = map newTask (urls c)" "outcome ?s = Pending"
      using wa probe_start(2) by (simp_all add: wfA_def)
    then show "trace (step c ?s e) = [] \<and>
         (phase (step c ?s e) = Running \<longrightarrow>
            outcome (step c ?s e) = Resolved (finalResult (map newTask (urls c))))"
      using probe_start(7) assms by (simp add: start_def settle_def)
  qed (use nw in simp_all)
qed

lemma no_urls_state:
  assumes "urls c = []"
  shows "outcome (loadBinaryResource c evs) = Resolved (Many []) \<and>
         trace (loadBinaryResource c evs) = []"
proof -
  note i = no_urls_init[OF assms]
  have "\<not> isWaiting (workerAt (initState c) w)" for w
    using i by (simp add: workerAt_def)
  moreover have "phase (initState c) \<noteq> Probing" using i by simp
  ultimately have "loadBinaryResource c evs = initState c"
    unfolding loadBinaryResource_def by (intro run_idle) auto
  then show ?thesis using i by simp
qed

text \<open>
  C2, as amended. Once the threads are spawned there are exactly \<^verbatim>\<open>nMaxParallel\<close> of them
  (none when it is not positive), and none before. Thread \<open>w\<close> claimed task \<open>w\<close> at once
  when there is such a task and returned at once otherwise, so \<open>min\<close> of the two numbers
  is how many threads ever claim a task. With \<^verbatim>\<open>nMaxParallel <= 0\<close> nothing is ever
  claimed, requested or fetched, and the call resolves with the initial empty buffers as
  soon as the threads would be spawned. With no URL the call resolves with the empty list.
\<close>

theorem spawns_nMaxParallel_threads:
  assumes "s = loadBinaryResource c evs"
  shows "(phase s = Running \<longrightarrow> length (workers s) = nat (nMaxParallel c)) \<and>
         (phase s \<noteq> Running \<longrightarrow> workers s = []) \<and>
         (\<forall>w<length (workers s).
            (w < length (urls c) \<longrightarrow> Claim w w \<in> set (trace s)) \<and>
            (length (urls c) \<le> w \<longrightarrow> workers s ! w = Exited)) \<and>
         (\<forall>w i. Claim w i \<in> set (trace s) \<longrightarrow> w < length (workers s) \<and> w < length (urls c)) \<and>
         (nMaxParallel c \<le> 0 \<longrightarrow>
            trace s = [] \<and>
            (phase s = Running \<longrightarrow> outcome s = Resolved (finalResult (map newTask (urls c))))) \<and>
         (urls c = [] \<longrightarrow> outcome s = Resolved (Many []) \<and> trace s = [])"
proof -
  have wa: "wfA c s" and ws: "wfS c s" using assms wfA_run wfS_run by auto
  have 1: "phase s = Running \<longrightarrow> length (workers s) = nat (nMaxParallel c)"
    and 2: "phase s \<noteq> Running \<longrightarrow> workers s = []"
    using wa by (simp_all add: wfA_def)
  have 3: "\<forall>w<length (workers s).
            (w < length (urls c) \<longrightarrow> Claim w w \<in> set (trace s)) \<and>
            (length (urls c) \<le> w \<longrightarrow> workers s ! w = Exited)"
    and 4: "\<forall>w i. Claim w i \<in> set (trace s) \<longrightarrow> w < length (workers s) \<and> w < length (urls c)"
    using ws unfolding wfS_def by blast+
  have 5: "nMaxParallel c \<le> 0 \<longrightarrow>
            trace s = [] \<and>
            (phase s = Running \<longrightarrow> outcome s = Resolved (finalResult (map newTask (urls c))))"
    using no_threads_state[of c evs] assms by blast
  have 6: "urls c = [] \<longrightarrow> outcome s = Resolved (Many []) \<and> trace s = []"
    using no_urls_state[of c evs] assms by blast
  show ?thesis using 1 2 3 4 5 6 by blast
qed

text \<open>
  Five threads for one URL, no thread for one URL, three threads for no URL.
\<close>

theorem spawns_nMaxParallel_threads_witness:
  "phase (loadBinaryResource cfgFiveThreads []) = Running \<and>
   length (workers (loadBinaryResource cfgFiveThreads [])) = 5 \<and>
   Claim 0 0 \<in> set (trace (loadBinaryResource cfgFiveThreads [])) \<and>
   workers (loadBinaryResource cfgFiveThreads []) ! 3 = Exited \<and>
   trace (loadBinaryResource cfgNoThreads [Load 0 (Some [1])]) = [] \<and>
   outcome (loadBinaryResource cfgNoThreads [Load 0 (Some [1])]) = Resolved (Single []) \<and>
   outcome (loadBinaryResource cfgNoUrls [ProbeDone 0 ProbeNetworkError]) = Resolved (Many [])"
proof -
  let ?s = "loadBinaryResource cfgFiveThreads []"
  let ?t = "loadBinaryResource cfgNoThreads [Load 0 (Some [1])]"
  let ?u = "loadBinaryResource cfgNoUrls [ProbeDone 0 ProbeNetworkError]"
  note a = spawns_nMaxParallel_threads[OF refl, of cfgFiveThreads "[]"]
  note b = spawns_nMaxParallel_threads[OF refl, of cfgNoThreads "[Load 0 (Some [1])]"]
  note d = spawns_nMaxParallel_threads[OF refl, of cfgNoUrls "[ProbeDone 0 ProbeNetworkError]"]
  have p: "phase ?s = Running" unfolding cfgFiveThreads_def by code_simp
  have q: "phase ?t = Running" unfolding cfgNoThreads_def by code_simp
  have n: "nat (nMaxParallel cfgFiveThreads) = 5" "length (urls cfgFiveThreads) = 1"
    "nMaxParallel cfgNoThreads \<le> 0" "finalResult (map newTask (urls cfgNoThreads)) = Single []"
    "urls cfgNoUrls = []"
    by (simp_all add: cfgFiveThreads_def cfgNoThreads_def cfgNoUrls_def finalResult_def newTask_def)
  have 1: "length (workers ?s) = 5" using a p n(1) by simp
  from a have a3: "w < length (workers ?s) \<Longrightarrow>
      (w < length (urls cfgFiveThreads) \<longrightarrow> Claim w w \<in> set (trace ?s)) \<and>
      (length (urls cfgFiveThreads) \<le> w \<longrightarrow> workers ?s ! w = Exited)" for w
    by blast
  have 2: "Claim 0 0 \<in> set (trace ?s)" using a3[of 0] 1 n(2) by simp
  have 3: "workers ?s ! 3 = Exited" using a3[of 3] 1 n(2) by simp
  have 4: "trace ?t = []" "outcome ?t = Resolved (Single [])" using b q n(3,4) by simp_all
  have 5: "outcome ?u = Resolved (Many [])" using d n(5) by blast
  show ?thesis using p 1 2 3 4 5 by blast
qed

text \<open>
  C2, as stated, fails: with \<^verbatim>\<open>nMaxParallel = 0\<close> and one URL no thread is spawned, the task
  is never started and the call resolves with the empty buffer; with
  \<^verbatim>\<open>nMaxParallel = 5\<close> and one URL five threads are spawned, not one.
\<close>

theorem no_clamp_no_min:
  "loadBinaryResource cfgNoThreads [] =
     \<lparr>tasks = [\<lparr>url = ''a'', result = [], started = False, sizeTotal = 0, sizeLoaded = 0\<rparr>],
      workers = [], sizeArr = [], totalSize = Num (- 1), phase = Running,
      outcome = Resolved (Single []), trace = []\<rparr> \<and>
   workers (loadBinaryResource cfgFiveThreads []) = [AwaitXhr 0, Exited, Exited, Exited, Exited]"
  unfolding cfgNoThreads_def cfgFiveThreads_def by code_simp

section \<open>C3: the size probe\<close>

















text \<open>
  The conversions at the ends of the range: a tie goes to the even significand, a length
  of 310 digits is \<^verbatim>\<open>Infinity\<close>, and adding \<open>1\<close> to \<open>2^53\<close> changes nothing.
\<close>

lemma probe_rounds_large_lengths:
  "parseInt ''9007199254740993'' = Num 9007199254740992 \<and>
   parseInt ''9007199254740995'' = Num 9007199254740996 \<and>
   parseInt (replicate 310 CHR ''9'') = PosInf \<and>
   parseInt (CHR ''-'' # replicate 310 CHR ''9'') = NegInf \<and>
   sumArr [Num 9007199254740992, Num 1] = Num 9007199254740992"
  by code_simp

section \<open>C4: the shape and order of the result\<close>

lemma map_url_modify:
  assumes "\<And>t. url (f t) = url t"
  shows "map url (modifyTask i f ts) = map url ts"
proof (cases "i < length ts")
  case True
  then show ?thesis by (simp add: modifyTask_def assms map_update list_update_same_conv)
next
  case False
  then show ?thesis by (simp add: modifyTask_def list_update_beyond)
qed

lemma claimNext_urls: "map url (tasks (snd (claimNext c w s))) = map url (tasks s)"
  by (simp add: claimNext_tasks map_url_modify split: option.split)

lemma spawnThreads_urls: "map url (tasks (spawnThreads c k s)) = map url (tasks s)"
  by (induction k arbitrary: s) (simp_all add: claimNext_urls)

lemma start_urls: "map url (tasks (start c s)) = map url (tasks s)"
  by (simp add: start_def spawnThreads_urls)

lemma resume_urls: "map url (tasks (resume c w i b s)) = map url (tasks s)"
  by (simp add: resume_alt Let_def claimNext_urls map_url_modify)

lemma step_urls: "map url (tasks (step c s e)) = map url (tasks s)"
  by (cases rule: step_cases[of c s e])
    (simp_all add: start_urls resume_urls map_url_modify)

lemma run_urls: "map url (tasks (loadBinaryResource c evs)) = urls c"
proof (induction evs rule: rev_induct)
  case Nil
  show ?case
    by (simp add: loadBinaryResource_def initState_def Let_def start_urls newTask_def comp_def
        split: option.split)
next
  case (snoc e evs)
  then show ?case by (simp add: run_snoc step_urls)
qed

text \<open>
  C4, as amended. Whenever a call resolves, the value returned is the buffer of the only
  task when there is exactly one URL, and otherwise the list of the tasks' buffers; the
  tasks are in the order of the URLs, one per URL; the buffer of a task is what its fetch
  resolved with; with at least one thread every task's fetch has resolved; and with no
  thread nothing is fetched and every buffer returned is the initial empty one.
\<close>

theorem result_shape_and_order:
  assumes "s = loadBinaryResource c evs" and "outcome s = Resolved r"
  shows "r = (if length (urls c) = 1 then Single (result (tasks s ! 0))
              else Many (map result (tasks s))) \<and>
         map url (tasks s) = urls c \<and>
         (\<forall>i b. FetchResolved i b \<in> set (trace s) \<longrightarrow> result (tasks s ! i) = b) \<and>
         (0 < nMaxParallel c \<longrightarrow>
            (\<forall>i<length (urls c). FetchResolved i (result (tasks s ! i)) \<in> set (trace s))) \<and>
         (nMaxParallel c \<le> 0 \<longrightarrow>
            trace s = [] \<and>
            r = (if length (urls c) = 1 then Single [] else Many (map (\<lambda>u. []) (urls c))))"
proof -
  have wa: "wfA c s" and wb: "wfB s" and wc: "wfC s" using assms(1) reach_run by auto
  have len: "length (tasks s) = length (urls c)" using wa by (simp add: wfA_def)
  have ex: "list_all (\<lambda>w. w = Exited) (workers s)" and r: "r = finalResult (tasks s)"
    using wa assms(2) by (auto simp: wfA_def)
  have run: "phase s = Running" using wa assms(2) by (cases "phase s") (auto simp: wfA_def)
  have 1: "r = (if length (urls c) = 1 then Single (result (tasks s ! 0))
              else Many (map result (tasks s)))"
    using r len by (simp add: finalResult_def)
  have 2: "map url (tasks s) = urls c" using assms(1) run_urls by simp
  have 3: "\<forall>i b. FetchResolved i b \<in> set (trace s) \<longrightarrow> result (tasks s ! i) = b"
    using wfCD(4)[OF wc] by blast
  have 4: "FetchResolved i (result (tasks s ! i)) \<in> set (trace s)"
    if n: "0 < nMaxParallel c" and i: "i < length (urls c)" for i
  proof -
    have "length (workers s) = nat (nMaxParallel c)" using wa run by (simp add: wfA_def)
    then have "workers s \<noteq> []" using n by auto
    then have "Exited \<in> set (workers s)"
      using ex by (cases "workers s") auto
    then have k: "length (claimedTasks (trace s)) = length (tasks s)" using wfBD(6)[OF wb] by simp
    have allx: "\<And>w. w < length (workers s) \<Longrightarrow> workers s ! w = Exited"
      using ex by (simp add: list_all_length)
    have nh: "\<not> holds (workers s) w i" for w using allx[of w] by (auto simp: holds_def)
    have nf: "Failed \<notin> set (workers s)" using allx by (auto simp: in_set_conv_nth)
    have "i < length (claimedTasks (trace s))" using i k len by simp
    from wfCD(6)[OF wc this] nh nf obtain b where b: "FetchResolved i b \<in> set (trace s)" by blast
    then have "result (tasks s ! i) = b" using 3 by blast
    then show ?thesis using b by simp
  qed
  have 5: "trace s = [] \<and>
      r = (if length (urls c) = 1 then Single [] else Many (map (\<lambda>u. []) (urls c)))"
    if n: "nMaxParallel c \<le> 0"
  proof -
    note t = no_threads_state[OF n, of evs]
    have "Resolved r = Resolved (finalResult (map newTask (urls c)))"
      using t run assms by simp
    then have "r = finalResult (map newTask (urls c))" by simp
    moreover have "result (map newTask (urls c) ! 0) = []" if "length (urls c) = 1"
      using that by (simp add: newTask_def)
    moreover have "map result (map newTask (urls c)) = map (\<lambda>u. []) (urls c)"
      by (simp add: newTask_def comp_def)
    ultimately show ?thesis using t assms(1) by (simp add: finalResult_def)
  qed
  show ?thesis using 1 2 3 4 5 by blast
qed

text \<open>
  Two URLs whose requests complete in reverse order, one URL served from the cache, and
  two URLs with no thread.
\<close>

theorem result_shape_and_order_witness:
  "outcome (loadBinaryResource cfgTwoPlain [Load 1 (Some [1, 2]), Load 0 (Some [7])])
     = Resolved (Many [[7], [1, 2]]) \<and>
   map url (tasks (loadBinaryResource cfgTwoPlain [Load 1 (Some [1, 2]), Load 0 (Some [7])]))
     = [''a'', ''b''] \<and>
   FetchResolved 1 [1, 2]
     \<in> set (trace (loadBinaryResource cfgTwoPlain [Load 1 (Some [1, 2]), Load 0 (Some [7])])) \<and>
   outcome (loadBinaryResource cfgCachedOne [CacheMatch 0 (Some [4, 2])])
     = Resolved (Single [4, 2]) \<and>
   result (tasks (loadBinaryResource cfgCachedOne [CacheMatch 0 (Some [4, 2])]) ! 0) = [4, 2] \<and>
   outcome (loadBinaryResource cfgTwoNoThreads [Load 0 (Some [1])]) = Resolved (Many [[], []]) \<and>
   trace (loadBinaryResource cfgTwoNoThreads [Load 0 (Some [1])]) = []"
proof -
  let ?s = "loadBinaryResource cfgTwoPlain [Load 1 (Some [1, 2]), Load 0 (Some [7])]"
  let ?t = "loadBinaryResource cfgCachedOne [CacheMatch 0 (Some [4, 2])]"
  have o: "outcome ?s = Resolved (Many [[7], [1, 2]])"
    unfolding cfgTwoPlain_def by code_simp
  have p: "outcome ?t = Resolved (Single [4, 2])"
    unfolding cfgCachedOne_def by code_simp
  note a = result_shape_and_order[OF refl o]
  note b = result_shape_and_order[OF refl p]
  have r1: "result (tasks ?s ! 1) = [1, 2]"
    unfolding cfgTwoPlain_def by code_simp
  have n: "0 < nMaxParallel cfgTwoPlain" "1 < length (urls cfgTwoPlain)"
    by (simp_all add: cfgTwoPlain_def)
  have 1: "map url (tasks ?s) = [''a'', ''b'']" using a by (simp add: cfgTwoPlain_def)
  have "FetchResolved 1 (result (tasks ?s ! 1)) \<in> set (trace ?s)" using a n by blast
  then have 2: "FetchResolved 1 [1, 2] \<in> set (trace ?s)" unfolding r1 .
  have "Single [4, 2] = Single (result (tasks ?t ! 0))" using b by (simp add: cfgCachedOne_def)
  then have 3: "result (tasks ?t ! 0) = [4, 2]" by simp
  have q: "outcome (loadBinaryResource cfgTwoNoThreads [Load 0 (Some [1])]) = Resolved (Many [[], []])"
    unfolding cfgTwoNoThreads_def by code_simp
  note d = result_shape_and_order[OF refl q]
  have z: "nMaxParallel cfgTwoNoThreads \<le> 0"
    by (simp add: cfgTwoNoThreads_def)
  have 5: "trace (loadBinaryResource cfgTwoNoThreads [Load 0 (Some [1])]) = []"
    using d z by blast
  show ?thesis using o 1 2 p 3 q 5 by blast
qed

text \<open>
  C4, as stated, fails for a call with no thread: with two URLs and \<^verbatim>\<open>nMaxParallel = 0\<close> the
  call resolves at once with two empty buffers, no task is claimed, no request is sent and
  no fetch resolves, so no entry holds bytes fetched for its URL; a response arriving
  later changes nothing.
\<close>

theorem unfetched_buffers_returned:
  "outcome (loadBinaryResource cfgTwoNoThreads []) = Resolved (Many [[], []]) \<and>
   trace (loadBinaryResource cfgTwoNoThreads []) = [] \<and>
   workers (loadBinaryResource cfgTwoNoThreads []) = [] \<and>
   map started (tasks (loadBinaryResource cfgTwoNoThreads [])) = [False, False] \<and>
   loadBinaryResource cfgTwoNoThreads [Load 0 (Some [1]), Load 1 (Some [2])]
     = loadBinaryResource cfgTwoNoThreads []"
  unfolding cfgTwoNoThreads_def by code_simp

section \<open>C5: a cache hit\<close>

text \<open>A resolved fetch that made no request stays so.\<close>

lemma hit_stable_step:
  assumes r: "wfA c s \<and> wfB s \<and> wfC s"
    and f: "FetchResolved i b \<in> set (trace s)" and q: "quiet i (trace s)"
  shows "FetchResolved i b \<in> set (trace (step c s e)) \<and> quiet i (trace (step c s e))"
proof -
  have wa: "wfA c s" and wb: "wfB s" and wc: "wfC s" using r by auto
  note C = wfCD[OF wc]
  let ?k = "length (claimedTasks (trace s))"
  have ik: "i < ?k" using C(2)[of i b] f by (cases "i < ?k") auto
  have nh: "\<not> holds (workers s) w i" for w using C(5)[OF f] .
  have res: "FetchResolved i b \<in> set (trace (resume c w j b' s)) \<and>
             quiet i (trace (resume c w j b' s))" for w j b'
    using f q ik by (auto simp: resume_trace[OF wb] quiet_def claimTrace_def)
  show ?thesis
  proof (cases rule: step_cases[of c s e])
    case (probe_start j r v sizes)
    then have "trace s = []" using wa by (simp add: wfA_def)
    then show ?thesis using f by simp
  next
    case (miss w j)
    then have "j \<noteq> i" using holds_workerAt[OF miss(2), of j] nh by auto
    then show ?thesis using f q miss(3) by (auto simp: quiet_def)
  next
    case (progress w j l t)
    then have "j \<noteq> i" using holds_workerAt[OF progress(2), of j] nh by auto
    then show ?thesis using f q progress(3) by (auto simp: quiet_def onProgress_trace)
  qed (use f q res in auto)
qed

lemma hit_stable:
  assumes "wfA c s \<and> wfB s \<and> wfC s"
    and "FetchResolved i b \<in> set (trace s)" and "quiet i (trace s)"
  shows "FetchResolved i b \<in> set (trace (foldl (step c) s evs)) \<and>
         quiet i (trace (foldl (step c) s evs))"
  using assms
proof (induction evs arbitrary: s)
  case Nil
  then show ?case by simp
next
  case (Cons e evs)
  have "wfA c (step c s e) \<and> wfB (step c s e) \<and> wfC (step c s e)"
    using reach_step[OF Cons.prems(1)] .
  moreover have "FetchResolved i b \<in> set (trace (step c s e)) \<and> quiet i (trace (step c s e))"
    using hit_stable_step[OF Cons.prems] .
  ultimately show ?case using Cons.IH[of "step c s e"] by simp
qed

text \<open>
  C5. In any state a call can reach, let a thread wait for the cache lookup of its task
  \<open>i\<close>, and let the lookup hit with the bytes \<open>b\<close>. In that very step the fetch
  resolves with \<open>b\<close>, and whatever happens afterwards the task's buffer is \<open>b\<close>, no
  request is ever sent for the task and its progress callback is never invoked.
\<close>

theorem cache_hit_no_transfer:
  assumes "s = loadBinaryResource c evs" and "workerAt s w = AwaitCache i"
    and "s' = foldl (step c) (step c s (CacheMatch w (Some b))) evs'"
  shows "FetchResolved i b \<in> set (trace (step c s (CacheMatch w (Some b)))) \<and>
         FetchResolved i b \<in> set (trace s') \<and> result (tasks s' ! i) = b \<and>
         XhrSend i \<notin> set (trace s') \<and> (\<forall>l t. TaskProgress i l t \<notin> set (trace s'))"
proof -
  let ?s1 = "step c s (CacheMatch w (Some b))"
  have r: "wfA c s \<and> wfB s \<and> wfC s" using assms(1) reach_run by simp
  then have wb: "wfB s" and wc: "wfC s" by auto
  have r1: "wfA c ?s1 \<and> wfB ?s1 \<and> wfC ?s1" using reach_step[OF r] .
  have h: "holds (workers s) w i" using holds_workerAt[OF assms(2)] by simp
  have ik: "i < length (claimedTasks (trace s))" using wfBD(4)[OF wb h] .
  have wl: "w < length (workers s)" "workers s ! w = AwaitCache i"
    using workerAt_eq[OF assms(2)] by auto
  have q: "quiet i (trace s)" using wfCD(3)[OF wc wl] .
  have s1: "?s1 = resume c w i b s" using assms(2) by simp
  have f1: "FetchResolved i b \<in> set (trace ?s1)" unfolding s1 by (simp add: resume_trace[OF wb])
  have q1: "quiet i (trace ?s1)"
    unfolding s1 using q ik by (auto simp: resume_trace[OF wb] quiet_def claimTrace_def)
  have st: "FetchResolved i b \<in> set (trace s') \<and> quiet i (trace s')"
    unfolding assms(3) using hit_stable[OF r1 f1 q1] .
  have "wfC s'" unfolding assms(3) using reach_foldl[OF r1] by blast
  then have "result (tasks s' ! i) = b" using wfCD(4) st by blast
  then show ?thesis using f1 st by (simp add: quiet_def)
qed

text \<open>
  In the call above the hit is for the second task; later the third task misses the cache
  and is requested.
\<close>

theorem cache_hit_no_transfer_witness:
  "workerAt (loadBinaryResource cfgThreeCached evsProbes) 1 = AwaitCache 1 \<and>
   result (tasks (foldl (step cfgThreeCached)
      (step cfgThreeCached (loadBinaryResource cfgThreeCached evsProbes) (CacheMatch 1 (Some [5])))
      evsAfterHit) ! 1) = [5] \<and>
   XhrSend 1 \<notin> set (trace (foldl (step cfgThreeCached)
      (step cfgThreeCached (loadBinaryResource cfgThreeCached evsProbes) (CacheMatch 1 (Some [5])))
      evsAfterHit)) \<and>
   XhrSend 2 \<in> set (trace (foldl (step cfgThreeCached)
      (step cfgThreeCached (loadBinaryResource cfgThreeCached evsProbes) (CacheMatch 1 (Some [5])))
      evsAfterHit))"
proof -
  have h: "workerAt (loadBinaryResource cfgThreeCached evsProbes) 1 = AwaitCache 1"
    unfolding cfgThreeCached_def evsProbes_def by code_simp
  have x: "XhrSend 2 \<in> set (trace (foldl (step cfgThreeCached)
      (step cfgThreeCached (loadBinaryResource cfgThreeCached evsProbes) (CacheMatch 1 (Some [5])))
      evsAfterHit))"
    unfolding cfgThreeCached_def evsProbes_def evsAfterHit_def by code_simp
  show ?thesis
    using cache_hit_no_transfer[OF refl h refl, of "[5]" evsAfterHit] h x by blast
qed

section \<open>C6: a failing cache store\<close>

lemma put_failure_state:
  "loadBinaryResource cfgCachedOne [CacheMatch 0 None, Load 0 (Some [1, 2, 3]), PutDone 0 False]
   = \<lparr>tasks = [\<lparr>url = ''a'', result = [], started = True, sizeTotal = 0, sizeLoaded = 0\<rparr>],
      workers = [Stalled 0], sizeArr = [], totalSize = Num (- 1), phase = Running,
      outcome = Pending, trace = [Claim 0 0, XhrSend 0]\<rparr>"
  unfolding cfgCachedOne_def by code_simp

text \<open>
  C6. One URL, one thread, a cache: the lookup misses, the request loads the bytes
  \<open>[1, 2, 3]\<close>, and \<^verbatim>\<open>cache.put\<close> throws. The \<^verbatim>\<open>onload\<close> handler is left before
  \<^verbatim>\<open>resolve(byteArray)\<close>, so whatever happens afterwards the call stays pending, the
  fetch never resolves and the task's buffer stays empty: the downloaded bytes are not
  returned.
\<close>

theorem put_failure_never_settles:
  "loadBinaryResource cfgCachedOne
     ([CacheMatch 0 None, Load 0 (Some [1, 2, 3]), PutDone 0 False] @ evs)
   = \<lparr>tasks = [\<lparr>url = ''a'', result = [], started = True, sizeTotal = 0, sizeLoaded = 0\<rparr>],
      workers = [Stalled 0], sizeArr = [], totalSize = Num (- 1), phase = Running,
      outcome = Pending, trace = [Claim 0 0, XhrSend 0]\<rparr>"
  unfolding run_append put_failure_state
  by (rule run_idle) (simp_all add: workerAt_def)

section \<open>C7: the arguments of the progress callback\<close>

lemma those_Some:
  "those xs = Some ys \<Longrightarrow> length ys = length xs \<and> (\<forall>j<length xs. xs ! j = Some (ys ! j))"
proof (induction xs arbitrary: ys)
  case Nil
  then show ?case by simp
next
  case (Cons x xs)
  then obtain y ys' where y: "x = Some y" "those xs = Some ys'" "ys = y # ys'"
    by (auto split: option.splits)
  from Cons.IH[OF y(2)] y show ?case by (auto simp: nth_Cons split: nat.split)
qed

lemma sizes_step:
  assumes "phase s \<noteq> Probing"
  shows "phase (step c s e) = phase s \<and> totalSize (step c s e) = totalSize s \<and>
         sizeArr (step c s e) = sizeArr s"
  using assms by (cases rule: step_cases[of c s e]) simp_all

lemma sizes_foldl:
  "phase s \<noteq> Probing \<Longrightarrow>
   phase (foldl (step c) s evs) = phase s \<and> totalSize (foldl (step c) s evs) = totalSize s \<and>
   sizeArr (foldl (step c) s evs) = sizeArr s"
proof (induction evs arbitrary: s)
  case Nil
  then show ?case by simp
next
  case (Cons e evs)
  have "phase (step c s e) \<noteq> Probing" using sizes_step[OF Cons.prems] Cons.prems by simp
  from Cons.IH[OF this] sizes_step[OF Cons.prems, of c e] show ?case by simp
qed

lemma wfT_step:
  assumes wa: "wfA c s" and wt: "wfT c s"
  shows "wfT c (step c s e)"
proof (cases rule: step_cases[of c s e])
  case idle
  then show ?thesis using wt by simp
next
  case (probe_fail j r err)
  then show ?thesis using wt by (simp add: wfT_def)
next
  case (probe_wait j r v)
  then show ?thesis using wt by (simp add: wfT_def)
next
  case (probe_start j r v sizes)
  have "trace s = []" using wa probe_start(2) by (simp add: wfA_def)
  then show ?thesis using wt probe_start by (simp add: wfT_def)
next
  case (progress w i l t)
  then show ?thesis using wt by (auto simp: wfT_def onProgress_aggregates)
qed (use wt in \<open>auto simp: wfT_def\<close>)

lemma wfT_init: "wfT c (initState c)"
  by (auto simp: initState_def Let_def wfT_def those_all_None split: option.split)

lemma wfT_run: "wfT c (loadBinaryResource c evs)"
proof (induction evs rule: rev_induct)
  case Nil
  then show ?case by (simp add: loadBinaryResource_def wfT_init)
next
  case (snoc e evs)
  then show ?case using wfT_step[OF wfA_run] by (simp add: run_snoc)
qed

text \<open>Every size in \<open>sizeArr\<close> is what \<open>getBinarySize\<close> made of a probe's response.\<close>

lemma sizeArr_step:
  "sizeArr (step c s e) = sizeArr s \<or>
   (\<exists>j r v. e = ProbeDone j r \<and> getBinarySize r = Inr v \<and> j < length (sizeArr s) \<and>
      sizeArr (step c s e) = (sizeArr s)[j := Some v])"
  by (cases rule: step_cases[of c s e]) auto

lemma sizes_probed:
  "j < length (sizeArr (loadBinaryResource c evs)) \<Longrightarrow>
   sizeArr (loadBinaryResource c evs) ! j = Some v \<Longrightarrow>
   \<exists>r. ProbeDone j r \<in> set evs \<and> getBinarySize r = Inr v"
proof (induction evs arbitrary: j v rule: rev_induct)
  case Nil
  then show ?case
    by (auto simp: loadBinaryResource_def initState_def Let_def split: option.splits if_splits)
next
  case (snoc e evs)
  let ?s = "loadBinaryResource c evs"
  have st: "loadBinaryResource c (evs @ [e]) = step c ?s e" by (simp add: run_snoc)
  from sizeArr_step[of c ?s e] show ?case
  proof (elim disjE exE conjE)
    assume "sizeArr (step c ?s e) = sizeArr ?s"
    then have "\<exists>r. ProbeDone j r \<in> set evs \<and> getBinarySize r = Inr v"
      using snoc.prems snoc.IH[of j v] unfolding st by simp
    then show ?thesis by auto
  next
    fix j' r v'
    assume e: "e = ProbeDone j' r" "getBinarySize r = Inr v'" "j' < length (sizeArr ?s)"
      and u: "sizeArr (step c ?s e) = (sizeArr ?s)[j' := Some v']"
    show ?thesis
    proof (cases "j = j'")
      case True
      then have "v = v'" using snoc.prems e(3) unfolding st u by simp
      then show ?thesis using e True by auto
    next
      case False
      then have "\<exists>r. ProbeDone j r \<in> set evs \<and> getBinarySize r = Inr v"
        using snoc.prems snoc.IH[of j v] unfolding st u by simp
      then show ?thesis by auto
    qed
  qed
qed

text \<open>
  C7. With a progress callback, a progress event of a request in flight, in any state a
  call can reach, first records the task's counts and then invokes the callback once, with
  \<open>loaded\<close> the sum of the \<open>sizeLoaded\<close> of all tasks as they are now and \<open>total\<close> the
  sum of the sizes the probes returned, one per URL. Every invocation so far carries that
  same total; it had that value in every earlier state of the run in which a thread
  existed, and it keeps it whatever happens next.
\<close>

theorem aggregate_progress_on_every_event:
  assumes "s = loadBinaryResource c evs" and "reportProgress c"
    and "workerAt s w = AwaitXhr i" and "s' = step c s (Progress w l t)"
  shows "trace s' = trace s @ [TaskProgress i l t,
                               Aggregate (sumArr (map sizeLoaded (tasks s'))) (totalSize s')] \<and>
         sizeLoaded (tasks s' ! i) = l \<and>
         (\<exists>sizes. those (sizeArr s') = Some sizes \<and> length sizes = length (urls c) \<and>
            totalSize s' = sumArr sizes \<and>
            (\<forall>j<length (urls c). \<exists>r. ProbeDone j r \<in> set evs \<and> getBinarySize r = Inr (sizes ! j))) \<and>
         (\<forall>l' t'. (l', t') \<in> set (aggregates (trace s')) \<longrightarrow> t' = totalSize s') \<and>
         (\<forall>n. workers (loadBinaryResource c (take n evs)) \<noteq> [] \<longrightarrow>
              totalSize (loadBinaryResource c (take n evs)) = totalSize s') \<and>
         (\<forall>evs'. totalSize (foldl (step c) s' evs') = totalSize s')"
proof -
  have wa: "wfA c s" and wb: "wfB s" and wt: "wfT c s"
    using assms(1) wfA_run wfB_run wfT_run by auto
  have s': "s' = onProgress c i l t s" using assms(3,4) by simp
  have run: "phase s = Running" using wfA_waiting(1)[OF wa assms(3)] by simp
  have keep: "phase s' = Running" "totalSize s' = totalSize s" "sizeArr s' = sizeArr s"
    using sizes_step[of s c "Progress w l t"] run assms(4) by simp_all
  have il: "i < length (tasks s)"
    using wfBD(4)[OF wb holds_workerAt[OF assms(3)]] wfBD(1)[OF wb] by simp
  have 1: "trace s' = trace s @ [TaskProgress i l t,
             Aggregate (sumArr (map sizeLoaded (tasks s'))) (totalSize s')]"
    using assms(2) by (simp add: s' onProgress_trace)
  have 2: "sizeLoaded (tasks s' ! i) = l" using il by (simp add: s' modifyTask_nth)
  obtain sizes where sz: "those (sizeArr s) = Some sizes" "totalSize s = sumArr sizes"
    using wt run assms(2) by (auto simp: wfT_def)
  have ln: "length (sizeArr s) = length (urls c)" using wt assms(2) by (simp add: wfT_def)
  note th = those_Some[OF sz(1)]
  have pr: "\<exists>r. ProbeDone j r \<in> set evs \<and> getBinarySize r = Inr (sizes ! j)"
    if "j < length (urls c)" for j
    using sizes_probed[of j c evs "sizes ! j"] that th ln assms(1) by simp
  have 3: "\<exists>sizes. those (sizeArr s') = Some sizes \<and> length sizes = length (urls c) \<and>
            totalSize s' = sumArr sizes \<and>
            (\<forall>j<length (urls c). \<exists>r. ProbeDone j r \<in> set evs \<and> getBinarySize r = Inr (sizes ! j))"
    using sz th ln pr keep by auto
  have "wfT c s'" unfolding assms(4) by (rule wfT_step[OF wa wt])
  then have 4: "\<forall>l' t'. (l', t') \<in> set (aggregates (trace s')) \<longrightarrow> t' = totalSize s'"
    by (simp add: wfT_def)
  have 5: "totalSize (loadBinaryResource c (take n evs)) = totalSize s'"
    if "workers (loadBinaryResource c (take n evs)) \<noteq> []" for n
  proof -
    let ?p = "loadBinaryResource c (take n evs)"
    have "wfA c ?p" by (rule wfA_run)
    then have "phase ?p = Running" using that by (auto simp: wfA_def)
    then have "totalSize (foldl (step c) ?p (drop n evs)) = totalSize ?p"
      using sizes_foldl[of ?p c "drop n evs"] by simp
    moreover have "foldl (step c) ?p (drop n evs) = s"
      using run_append[of c "take n evs" "drop n evs"] assms(1) by simp
    ultimately show ?thesis using keep(2) by simp
  qed
  have 6: "\<forall>evs'. totalSize (foldl (step c) s' evs') = totalSize s'"
    using sizes_foldl[of s' c] keep(1) by simp
  show ?thesis using 1 2 3 4 5 6 by blast
qed

text \<open>
  Sizes 10, 20 and 30 are probed; the first request reports 5 bytes of 10.
\<close>

theorem aggregate_progress_on_every_event_witness:
  "reportProgress cfgThreeCached \<and>
   workerAt (loadBinaryResource cfgThreeCached (evsProbes @ [CacheMatch 0 None])) 0 = AwaitXhr 0 \<and>
   trace (step cfgThreeCached (loadBinaryResource cfgThreeCached (evsProbes @ [CacheMatch 0 None]))
            (Progress 0 5 10))
     = trace (loadBinaryResource cfgThreeCached (evsProbes @ [CacheMatch 0 None])) @
         [TaskProgress 0 5 10, Aggregate 5 (Num 60)]"
proof -
  let ?s = "loadBinaryResource cfgThreeCached (evsProbes @ [CacheMatch 0 None])"
  let ?s' = "step cfgThreeCached ?s (Progress 0 5 10)"
  have r: "reportProgress cfgThreeCached" by (simp add: cfgThreeCached_def)
  have h: "workerAt ?s 0 = AwaitXhr 0"
    unfolding cfgThreeCached_def evsProbes_def by code_simp
  have a: "sumArr (map sizeLoaded (tasks ?s')) = 5"
    unfolding cfgThreeCached_def evsProbes_def by code_simp
  have b: "totalSize ?s' = Num 60"
    unfolding cfgThreeCached_def evsProbes_def by code_simp
  from aggregate_progress_on_every_event[OF refl r h refl, of 5 10]
  have "trace ?s' = trace ?s @ [TaskProgress 0 5 10,
          Aggregate (sumArr (map sizeLoaded (tasks ?s'))) (totalSize ?s')]"
    by blast
  then have "trace ?s' = trace ?s @ [TaskProgress 0 5 10, Aggregate 5 (Num 60)]"
    unfolding a b .
  then show ?thesis using r h by blast
qed

section \<open>C8: the loaded sums do not decrease\<close>

lemma sumArr_sum_list: "sumArr xs = sum_list xs"
proof -
  have "foldl (\<lambda>prev curr. prev + curr) a xs = a + sum_list xs" for a :: "'a"
    by (induction xs arbitrary: a) (simp_all add: add.assoc)
  then show ?thesis by (simp add: sumArr_def)
qed

lemma taskLoads_append [simp]: "taskLoads i (xs @ ys) = taskLoads i xs @ taskLoads i ys"
  by (induction i xs rule: taskLoads.induct) simp_all

lemma taskLoads_claimTrace [simp]: "taskLoads j (claimTrace c w i) = []"
  by (simp add: claimTrace_def)

lemma map_modifyTask_same:
  assumes "\<And>t. g (f t) = g t"
  shows "map g (modifyTask i f ts) = map g ts"
proof (cases "i < length ts")
  case True
  then show ?thesis by (simp add: modifyTask_def assms map_update list_update_same_conv)
next
  case False
  then show ?thesis by (simp add: modifyTask_def list_update_beyond)
qed

lemma claimNext_loads [simp]:
  "taskLoads j (trace (snd (claimNext c w s))) = taskLoads j (trace s)"
  "map sizeLoaded (tasks (snd (claimNext c w s))) = map sizeLoaded (tasks s)"
  by (simp_all add: claimNext_trace claimNext_tasks map_modifyTask_same split: option.split)

lemma spawnThreads_loads [simp]:
  "taskLoads j (trace (spawnThreads c k s)) = taskLoads j (trace s)"
  "map sizeLoaded (tasks (spawnThreads c k s)) = map sizeLoaded (tasks s)"
  by (induction k arbitrary: s) simp_all

lemma start_loads [simp]:
  "taskLoads j (trace (start c s)) = taskLoads j (trace s)"
  "map sizeLoaded (tasks (start c s)) = map sizeLoaded (tasks s)"
  by (simp_all add: start_def)

lemma resume_loads [simp]:
  "taskLoads j (trace (resume c w i b s)) = taskLoads j (trace s)"
  "map sizeLoaded (tasks (resume c w i b s)) = map sizeLoaded (tasks s)"
  by (simp_all add: resume_alt Let_def map_modifyTask_same)

text \<open>Only a progress event of a request in flight touches the loaded counts.\<close>

lemma step_loads:
  "(\<exists>w i l t. e = Progress w l t \<and> workerAt s w = AwaitXhr i \<and> step c s e = onProgress c i l t s) \<or>
   (map sizeLoaded (tasks (step c s e)) = map sizeLoaded (tasks s) \<and>
    aggregates (trace (step c s e)) = aggregates (trace s) \<and>
    (\<forall>j. taskLoads j (trace (step c s e)) = taskLoads j (trace s)))"
  by (cases rule: step_cases[of c s e]) auto

lemma sum_list_update_mono:
  fixes xs :: "nat list"
  assumes "i < length xs" "xs ! i \<le> v"
  shows "sum_list xs \<le> sum_list (xs[i := v])"
proof -
  have "xs ! i \<le> sum_list xs" using assms(1) by (simp add: member_le_sum_list)
  then show ?thesis using assms by (simp add: sum_list_update)
qed

lemma sorted_le_last:
  fixes xs :: "nat list"
  assumes "sorted xs" "x \<in> set xs"
  shows "x \<le> last xs"
proof -
  have ne: "xs \<noteq> []" using assms(2) by auto
  then have "xs = butlast xs @ [last xs]" by simp
  then have "sorted (butlast xs @ [last xs])" using assms(1) by simp
  then have "\<forall>y\<in>set (butlast xs). y \<le> last xs" by (simp add: sorted_append)
  moreover have "x \<in> set (butlast xs) \<or> x = last xs"
    using assms(2) ne by (metis Un_iff append_butlast_last_id empty_iff empty_set insert_iff list.set(2) set_append)
  ultimately show ?thesis by auto
qed

lemma wfL_progress:
  assumes wl: "wfL c s" and il: "i < length (tasks s)"
  shows "wfL c (onProgress c i l t s)"
proof -
  let ?s' = "onProgress c i l t s"
  let ?tr = "trace s"
  have L0: "\<not> reportProgress c \<Longrightarrow> aggregates ?tr = []"
    and L1: "\<And>j. j < length (tasks s) \<Longrightarrow> sizeLoaded (tasks s ! j) =
          (if taskLoads j ?tr = [] then 0 else last (taskLoads j ?tr))"
    and L2: "aggregates ?tr \<noteq> [] \<Longrightarrow> fst (last (aggregates ?tr)) = sumArr (map sizeLoaded (tasks s))"
    and L3: "(\<forall>j<length (tasks s). sorted (taskLoads j ?tr)) \<Longrightarrow> sorted (map fst (aggregates ?tr))"
    using wl unfolding wfL_def by blast+
  have len: "length (tasks ?s') = length (tasks s)" by simp
  have tl: "taskLoads j (trace ?s') = taskLoads j ?tr @ (if j = i then [l] else [])" for j
    by (simp add: onProgress_trace)
  have ag: "aggregates (trace ?s') = aggregates ?tr @
       (if reportProgress c then [(sumArr (map sizeLoaded (tasks ?s')), totalSize s)] else [])"
    by (simp add: onProgress_trace)
  have sl: "map sizeLoaded (tasks ?s') = (map sizeLoaded (tasks s))[i := l]"
    using il by (simp add: modifyTask_def map_update)
  show ?thesis
    unfolding wfL_def
  proof (intro conjI impI allI)
    assume "\<not> reportProgress c"
    then show "aggregates (trace ?s') = []" using L0 by (simp add: ag)
  next
    fix j assume "j < length (tasks ?s')"
    then show "sizeLoaded (tasks ?s' ! j) =
        (if taskLoads j (trace ?s') = [] then 0 else last (taskLoads j (trace ?s')))"
      using L1[of j] by (simp add: tl modifyTask_nth)
  next
    assume "aggregates (trace ?s') \<noteq> []"
    then show "fst (last (aggregates (trace ?s'))) = sumArr (map sizeLoaded (tasks ?s'))"
      using L0 by (cases "reportProgress c") (simp_all add: ag)
  next
    assume a: "\<forall>j<length (tasks ?s'). sorted (taskLoads j (trace ?s'))"
    then have old: "\<forall>j<length (tasks s). sorted (taskLoads j ?tr)"
      by (auto simp: tl sorted_append split: if_splits)
    then have so: "sorted (map fst (aggregates ?tr))" using L3 by blast
    have "sorted (taskLoads i (trace ?s'))" using a il len by auto
    then have "sorted (taskLoads i ?tr @ [l])" by (simp add: tl)
    then have "taskLoads i ?tr \<noteq> [] \<Longrightarrow> last (taskLoads i ?tr) \<le> l"
      by (simp add: sorted_append)
    then have le: "sizeLoaded (tasks s ! i) \<le> l" using L1[OF il] by auto
    have mono: "sumArr (map sizeLoaded (tasks s)) \<le> sumArr (map sizeLoaded (tasks ?s'))"
      unfolding sumArr_sum_list sl
      by (rule sum_list_update_mono) (use il le in simp_all)
    show "sorted (map fst (aggregates (trace ?s')))"
    proof (cases "reportProgress c")
      case False
      then show ?thesis using so by (simp add: ag)
    next
      case True
      have "x \<le> sumArr (map sizeLoaded (tasks ?s'))" if x: "x \<in> set (map fst (aggregates ?tr))" for x
      proof -
        have ne: "aggregates ?tr \<noteq> []" using x by auto
        have "x \<le> last (map fst (aggregates ?tr))" using sorted_le_last[OF so x] .
        also have "\<dots> = fst (last (aggregates ?tr))" using ne by (simp add: last_map)
        also have "\<dots> = sumArr (map sizeLoaded (tasks s))" using L2[OF ne] .
        finally show ?thesis using mono by simp
      qed
      then show ?thesis using so True by (simp add: ag sorted_append)
    qed
  qed
qed

lemma wfL_step:
  assumes wb: "wfB s" and wl: "wfL c s"
  shows "wfL c (step c s e)"
  using step_loads[of e s c]
proof (elim disjE exE conjE)
  fix w i l t
  assume e: "e = Progress w l t" "workerAt s w = AwaitXhr i" "step c s e = onProgress c i l t s"
  have "i < length (tasks s)"
    using wfBD(4)[OF wb holds_workerAt[OF e(2)]] wfBD(1)[OF wb] by simp
  then show ?thesis using wfL_progress[OF wl] e(3) by simp
next
  assume f: "map sizeLoaded (tasks (step c s e)) = map sizeLoaded (tasks s)"
    "aggregates (trace (step c s e)) = aggregates (trace s)"
    "\<forall>j. taskLoads j (trace (step c s e)) = taskLoads j (trace s)"
  have len: "length (tasks (step c s e)) = length (tasks s)"
    using f(1) map_eq_imp_length_eq by blast
  have nth: "sizeLoaded (tasks (step c s e) ! j) = sizeLoaded (tasks s ! j)"
    if "j < length (tasks s)" for j
    using that f(1) len by (metis nth_map)
  have f3: "taskLoads j (trace (step c s e)) = taskLoads j (trace s)" for j
    using f(3) by blast
  show ?thesis using wl by (simp add: wfL_def f3 f(1,2) len nth)
qed

lemma wfL_init: "wfL c (initState c)"
proof -
  have 0: "wfL c (start c \<lparr>tasks = map newTask (urls c), workers = [], sizeArr = sa,
      totalSize = ts, phase = Probing, outcome = Pending, trace = []\<rparr>)" for sa ts
  proof -
    let ?s0 = "\<lparr>tasks = map newTask (urls c), workers = [], sizeArr = sa,
      totalSize = ts, phase = Probing, outcome = Pending, trace = []\<rparr>"
    have m: "map sizeLoaded (tasks (start c ?s0)) = map sizeLoaded (map newTask (urls c))"
      by simp
    have len: "length (tasks (start c ?s0)) = length (urls c)" by simp
    have "sizeLoaded (tasks (start c ?s0) ! j) = 0" if "j < length (urls c)" for j
      using that len nth_map[of j "tasks (start c ?s0)" sizeLoaded]
      by (simp add: newTask_def)
    then show ?thesis by (simp add: wfL_def)
  qed
  have 1: "wfL c \<lparr>tasks = map newTask (urls c), workers = [], sizeArr = sa,
      totalSize = ts, phase = Probing, outcome = Pending, trace = []\<rparr>" for sa ts
    by (simp add: wfL_def newTask_def)
  show ?thesis using 0 1 by (auto simp: initState_def Let_def split: option.split)
qed

lemma wfL_run: "wfL c (loadBinaryResource c evs)"
proof (induction evs rule: rev_induct)
  case Nil
  then show ?case by (simp add: loadBinaryResource_def wfL_init)
next
  case (snoc e evs)
  then show ?case using wfL_step[OF wfB_run] by (simp add: run_snoc)
qed

text \<open>
  C8. In any state a call can reach, if the counts the transport has reported for each
  task are non-decreasing, then so are the \<open>loaded\<close> arguments of the successive
  invocations of the callback; and the \<open>loaded\<close> of the last invocation is the sum of the
  tasks' \<open>sizeLoaded\<close>, each of which is the last count reported for its task (\<open>0\<close> for a
  task that reported none, as one served from the cache).
\<close>

theorem aggregate_loaded_monotone:
  assumes "s = loadBinaryResource c evs"
    and "\<forall>i<length (tasks s). sorted (taskLoads i (trace s))"
  shows "sorted (map fst (aggregates (trace s))) \<and>
         (aggregates (trace s) \<noteq> [] \<longrightarrow>
            fst (last (aggregates (trace s))) = sumArr (map sizeLoaded (tasks s))) \<and>
         (\<forall>i<length (tasks s). sizeLoaded (tasks s ! i) =
            (if taskLoads i (trace s) = [] then 0 else last (taskLoads i (trace s))))"
  using wfL_run[of c evs] assms unfolding wfL_def by blast

text \<open>
  Two requests in flight report 5, 3 and 10 bytes.
\<close>

theorem aggregate_loaded_monotone_witness:
  "map fst (aggregates (trace (loadBinaryResource cfgThreeCached evsTwoInFlight))) = [5, 8, 13] \<and>
   sorted (map fst (aggregates (trace (loadBinaryResource cfgThreeCached evsTwoInFlight)))) \<and>
   map sizeLoaded (tasks (loadBinaryResource cfgThreeCached evsTwoInFlight)) = [10, 3, 0] \<and>
   fst (last (aggregates (trace (loadBinaryResource cfgThreeCached evsTwoInFlight))))
     = sumArr (map sizeLoaded (tasks (loadBinaryResource cfgThreeCached evsTwoInFlight)))"
proof -
  let ?s = "loadBinaryResource cfgThreeCached evsTwoInFlight"
  have tr: "trace ?s =
      [Claim 0 0, Claim 1 1, XhrSend 0, XhrSend 1, TaskProgress 0 5 10, Aggregate 5 (Num 60),
       TaskProgress 1 3 20, Aggregate 8 (Num 60), TaskProgress 0 10 10, Aggregate 13 (Num 60)]"
    unfolding cfgThreeCached_def evsTwoInFlight_def evsProbes_def by code_simp
  have sl: "map sizeLoaded (tasks ?s) = [10, 3, 0]"
    unfolding cfgThreeCached_def evsTwoInFlight_def evsProbes_def by code_simp
  have h: "\<forall>i<length (tasks ?s). sorted (taskLoads i (trace ?s))"
    unfolding tr by simp
  have ne: "aggregates (trace ?s) \<noteq> []" unfolding tr by simp
  have ag: "map fst (aggregates (trace ?s)) = [5, 8, 13]" unfolding tr by simp
  from aggregate_loaded_monotone[OF refl h] ne
  have "sorted (map fst (aggregates (trace ?s)))"
    "fst (last (aggregates (trace ?s))) = sumArr (map sizeLoaded (tasks ?s))"
    by blast+
  then show ?thesis using ag sl by blast
qed

section \<open>C9: claiming\<close>

lemma findUnstarted_Some:
  "findUnstarted ts = Some i \<Longrightarrow>
   i < length ts \<and> \<not> started (ts ! i) \<and> (\<forall>j<i. started (ts ! j))"
proof (induction ts arbitrary: i)
  case Nil
  then show ?case by simp
next
  case (Cons t ts)
  show ?case
  proof (cases "started t")
    case False
    then show ?thesis using Cons.prems by simp
  next
    case True
    then obtain i' where i': "findUnstarted ts = Some i'" "i = Suc i'"
      using Cons.prems by (auto split: option.splits)
    from Cons.IH[OF i'(1)] True i'(2) show ?thesis
      by (auto simp: less_Suc_eq_0_disj)
  qed
qed

lemma claimedTasks_mem: "i \<in> set (claimedTasks tr) \<longleftrightarrow> (\<exists>w. Claim w i \<in> set tr)"
  by (induction tr rule: claimedTasks.induct) auto

lemma claim_once:
  "distinct (claimedTasks tr) \<Longrightarrow> Claim w i \<in> set tr \<Longrightarrow> Claim w' i \<in> set tr \<Longrightarrow> w = w'"
proof (induction tr rule: claimedTasks.induct)
  case (2 v j as)
  then show ?case by (auto simp: claimedTasks_mem)
qed auto

text \<open>
  C9. In every state a call can reach: the tasks claimed so far are \<open>0, 1, 2, \<dots>\<close> in
  that order, and they are exactly the started tasks; a task is claimed by at most one
  thread, and no two threads are busy with the same task; a thread has returned only if
  every task is started. A thread that takes the loop there finds the first unstarted
  task, if there is one, and claims it by setting \<open>started\<close>, and returns otherwise: this
  is the only \<^verbatim>\<open>return\<close> of the loop (a thread whose fetch is rejected throws, and is
  \<open>Failed\<close>, not \<open>Exited\<close>).
\<close>

theorem claims_exclusive_in_input_order:
  assumes "s = loadBinaryResource c evs"
  shows "claimedTasks (trace s) = [0..<length (claimedTasks (trace s))] \<and>
         (\<forall>i<length (tasks s). started (tasks s ! i) \<longleftrightarrow> i < length (claimedTasks (trace s))) \<and>
         (\<forall>w w' i. Claim w i \<in> set (trace s) \<longrightarrow> Claim w' i \<in> set (trace s) \<longrightarrow> w = w') \<and>
         (\<forall>w w' i. holds (workers s) w i \<longrightarrow> holds (workers s) w' i \<longrightarrow> w = w') \<and>
         (Exited \<in> set (workers s) \<longrightarrow> (\<forall>i<length (tasks s). started (tasks s ! i))) \<and>
         (\<forall>w. case findUnstarted (tasks s) of
                 None \<Rightarrow> claimNext c w s = (Exited, s)
               | Some i \<Rightarrow>
                   \<not> started (tasks s ! i) \<and> (\<forall>j<i. started (tasks s ! j)) \<and>
                   taskOf (fst (claimNext c w s)) = Some i \<and>
                   started (tasks (snd (claimNext c w s)) ! i) \<and>
                   claimedTasks (trace (snd (claimNext c w s))) = claimedTasks (trace s) @ [i])"
proof -
  have wb: "wfB s" using assms wfB_run by simp
  note B = wfBD[OF wb]
  let ?k = "length (claimedTasks (trace s))"
  have ord: "claimedTasks (trace s) = [0..<?k]" using B(3) by (simp add: inOrder_def)
  have "distinct [0..<?k]" by simp
  then have dist: "distinct (claimedTasks (trace s))" using ord by metis
  have 3: "\<forall>w w' i. Claim w i \<in> set (trace s) \<longrightarrow> Claim w' i \<in> set (trace s) \<longrightarrow> w = w'"
    using claim_once[OF dist] by blast
  have 5: "Exited \<in> set (workers s) \<longrightarrow> (\<forall>i<length (tasks s). started (tasks s ! i))"
    using B(2) B(6) by auto
  have 6: "case findUnstarted (tasks s) of
                 None \<Rightarrow> claimNext c w s = (Exited, s)
               | Some i \<Rightarrow>
                   \<not> started (tasks s ! i) \<and> (\<forall>j<i. started (tasks s ! j)) \<and>
                   taskOf (fst (claimNext c w s)) = Some i \<and>
                   started (tasks (snd (claimNext c w s)) ! i) \<and>
                   claimedTasks (trace (snd (claimNext c w s))) = claimedTasks (trace s) @ [i]" for w
  proof (cases "findUnstarted (tasks s)")
    case None
    then show ?thesis by (simp add: claimNext_def)
  next
    case (Some i)
    note f = findUnstarted_Some[OF Some]
    show ?thesis
      using f Some
      by (simp add: claimNext_fst claimNext_tasks claimNext_trace modifyTask_nth)
  qed
  show ?thesis using ord B(2) 3 B(5) 5 6 by blast
qed

text \<open>
  Three URLs, two threads, a cache and a progress callback: after the probes the second
  task is served from the cache and its thread claims the third.
\<close>

theorem claims_exclusive_in_input_order_witness:
  "claimedTasks (trace (loadBinaryResource cfgThreeCached evsThree)) = [0, 1, 2] \<and>
   map started (tasks (loadBinaryResource cfgThreeCached evsThree)) = [True, True, True] \<and>
   workers (loadBinaryResource cfgThreeCached evsThree) = [Exited, AwaitCache 2]"
proof -
  let ?s = "loadBinaryResource cfgThreeCached evsThree"
  have len: "length (claimedTasks (trace ?s)) = 3"
    unfolding cfgThreeCached_def evsThree_def by code_simp
  have "claimedTasks (trace ?s) = [0..<length (claimedTasks (trace ?s))]"
    using claims_exclusive_in_input_order[OF refl, of cfgThreeCached evsThree] by blast
  then have 1: "claimedTasks (trace ?s) = [0, 1, 2]"
    unfolding len by (simp add: upt_rec)
  have 2: "map started (tasks ?s) = [True, True, True]"
    unfolding cfgThreeCached_def evsThree_def by code_simp
  have 3: "workers ?s = [Exited, AwaitCache 2]"
    unfolding cfgThreeCached_def evsThree_def by code_simp
  show ?thesis using 1 2 3 by blast
qed

section \<open>C10: the total reported by the transport\<close>

lemma scrub_fields [simp]:
  "tasks (scrub s) = map scrubTask (tasks s)" "trace (scrub s) = map scrubAction (trace s)"
  "workers (scrub s) = workers s" "phase (scrub s) = phase s" "sizeArr (scrub s) = sizeArr s"
  "totalSize (scrub s) = totalSize s" "outcome (scrub s) = outcome s"
  by (simp_all add: scrub_def)

lemma state_eqI:
  fixes s s' :: state
  assumes "tasks s = tasks s'" "workers s = workers s'" "sizeArr s = sizeArr s'"
    "totalSize s = totalSize s'" "phase s = phase s'" "outcome s = outcome s'"
    "trace s = trace s'"
  shows "s = s'"
  using assms by (cases s; cases s') simp

lemma map_modifyTask:
  assumes "\<And>t. g (f t) = f' (g t)"
  shows "map g (modifyTask i f ts) = modifyTask i f' (map g ts)"
proof (cases "i < length ts")
  case True
  then show ?thesis by (simp add: modifyTask_def map_update assms)
next
  case False
  then show ?thesis by (simp add: modifyTask_def list_update_beyond)
qed

lemma findUnstarted_scrub [simp]: "findUnstarted (map scrubTask ts) = findUnstarted ts"
  by (induction ts) (simp_all add: scrubTask_def)

lemma finalResult_scrub [simp]: "finalResult (map scrubTask ts) = finalResult ts"
  by (cases ts) (simp_all add: finalResult_def scrubTask_def comp_def)

lemma settle_scrub: "settle (scrub s) = scrub (settle s)"
  by (rule state_eqI) (simp_all add: settle_outcome)

lemma reject_scrub: "reject e (scrub s) = scrub (reject e s)"
  by (rule state_eqI) (simp_all add: reject_outcome)

lemma setWorker_scrub: "setWorker w x (scrub s) = scrub (setWorker w x s)"
  by (rule state_eqI) simp_all

lemma workerAt_scrub [simp]: "workerAt (scrub s) w = workerAt s w"
  by (simp add: workerAt_def)

lemma claimNext_scrub:
  "fst (claimNext c w (scrub s)) = fst (claimNext c w s)"
  "snd (claimNext c w (scrub s)) = scrub (snd (claimNext c w s))"
proof -
  show "fst (claimNext c w (scrub s)) = fst (claimNext c w s)"
    by (simp add: claimNext_fst)
  show "snd (claimNext c w (scrub s)) = scrub (snd (claimNext c w s))"
    by (rule state_eqI)
      (simp_all add: claimNext_tasks claimNext_trace claimTrace_def scrubTask_def
        map_modifyTask[where f'="\<lambda>t. t\<lparr>started := True\<rparr>"] split: option.split)
qed

lemma spawnThread_scrub: "spawnThread c (scrub s) = scrub (spawnThread c s)"
  by (rule state_eqI) (simp_all add: claimNext_scrub)

lemma spawnThreads_scrub: "spawnThreads c k (scrub s) = scrub (spawnThreads c k s)"
  by (induction k arbitrary: s) (simp_all add: spawnThread_scrub)

lemma scrub_updates:
  "scrub (s\<lparr>phase := p\<rparr>) = (scrub s)\<lparr>phase := p\<rparr>"
  "scrub (s\<lparr>outcome := oc, phase := p\<rparr>) = (scrub s)\<lparr>outcome := oc, phase := p\<rparr>"
  "scrub (s\<lparr>sizeArr := sa\<rparr>) = (scrub s)\<lparr>sizeArr := sa\<rparr>"
  "scrub (s\<lparr>sizeArr := sa, totalSize := ts\<rparr>) = (scrub s)\<lparr>sizeArr := sa, totalSize := ts\<rparr>"
  "scrub (s\<lparr>trace := trace s @ [XhrSend i]\<rparr>) = (scrub s)\<lparr>trace := trace (scrub s) @ [XhrSend i]\<rparr>"
  by (simp_all add: scrub_def)

lemma start_scrub: "start c (scrub s) = scrub (start c s)"
  by (simp add: start_def settle_scrub[symmetric] spawnThreads_scrub[symmetric] scrub_updates)

lemma resume_scrub: "resume c w i b (scrub s) = scrub (resume c w i b s)"
proof -
  let ?s1 = "s\<lparr>tasks := modifyTask i (\<lambda>t. t\<lparr>result := b\<rparr>) (tasks s),
                 trace := trace s @ [FetchResolved i b]\<rparr>"
  have 1: "(scrub s)\<lparr>tasks := modifyTask i (\<lambda>t. t\<lparr>result := b\<rparr>) (tasks (scrub s)),
                 trace := trace (scrub s) @ [FetchResolved i b]\<rparr> = scrub ?s1"
    by (rule state_eqI)
      (simp_all add: scrubTask_def map_modifyTask[where f'="\<lambda>t. t\<lparr>result := b\<rparr>"])
  show ?thesis
    unfolding resume_alt Let_def 1
    by (simp add: claimNext_scrub setWorker_scrub settle_scrub)
qed

lemma scrubTask_fields [simp]:
  "sizeLoaded (scrubTask t) = sizeLoaded t" "result (scrubTask t) = result t"
  "started (scrubTask t) = started t" "url (scrubTask t) = url t"
  by (simp_all add: scrubTask_def)

lemma onProgress_scrub: "onProgress c i l 0 (scrub s) = scrub (onProgress c i l t s)"
proof -
  have m: "map scrubTask (modifyTask i (\<lambda>x. x\<lparr>sizeTotal := t, sizeLoaded := l\<rparr>) ts) =
        modifyTask i (\<lambda>x. x\<lparr>sizeTotal := 0, sizeLoaded := l\<rparr>) (map scrubTask ts)" for ts
    by (rule map_modifyTask) (simp add: scrubTask_def)
  have "map sizeLoaded (modifyTask i (\<lambda>x. x\<lparr>sizeTotal := 0, sizeLoaded := l\<rparr>) (map scrubTask ts))
      = map sizeLoaded (modifyTask i (\<lambda>x. x\<lparr>sizeTotal := t, sizeLoaded := l\<rparr>) ts)" for ts
    unfolding m[symmetric] by (simp add: comp_def)
  then show ?thesis
    by (intro state_eqI) (simp_all add: onProgress_trace m)
qed

text \<open>Scrubbing the totals commutes with every step.\<close>

lemma step_scrub: "step c (scrub s) (eraseTotal e) = scrub (step c s e)"
proof (cases e)
  case (ProbeDone j r)
  then show ?thesis
    by (simp add: Let_def start_scrub[symmetric] scrub_updates split: sum.split option.split)
next
  case (CacheMatch w hit)
  then show ?thesis
    by (cases "workerAt s w"; cases hit)
      (simp_all add: resume_scrub setWorker_scrub[symmetric] scrub_updates)
next
  case (Progress w l t)
  then show ?thesis
    by (cases "workerAt s w") (simp_all add: onProgress_scrub)
next
  case (Load w resp)
  then show ?thesis
    by (cases "workerAt s w"; cases resp) (simp_all add: resume_scrub setWorker_scrub)
next
  case (PutDone w ok)
  then show ?thesis
    by (cases "workerAt s w") (simp_all add: resume_scrub setWorker_scrub)
next
  case (XhrError w)
  then show ?thesis
    by (cases "workerAt s w") (simp_all add: reject_scrub setWorker_scrub)
qed

lemma foldl_scrub:
  "foldl (step c) (scrub s) (map eraseTotal evs) = scrub (foldl (step c) s evs)"
  by (induction evs arbitrary: s) (simp_all add: step_scrub)

lemma init_scrub: "scrub (initState c) = initState c"
proof -
  have 0: "scrub \<lparr>tasks = map newTask (urls c), workers = [], sizeArr = sa, totalSize = ts,
      phase = Probing, outcome = Pending, trace = []\<rparr> =
      \<lparr>tasks = map newTask (urls c), workers = [], sizeArr = sa, totalSize = ts,
      phase = Probing, outcome = Pending, trace = []\<rparr>" for sa ts
    by (simp add: scrub_def scrubTask_def newTask_def)
  show ?thesis
    using 0 start_scrub[of c "\<lparr>tasks = map newTask (urls c), workers = [], sizeArr = sa,
      totalSize = ts, phase = Probing, outcome = Pending, trace = []\<rparr>" for sa ts]
    by (auto simp: initState_def Let_def split: option.split)
qed

lemma run_scrub: "scrub (loadBinaryResource c evs) = loadBinaryResource c (map eraseTotal evs)"
  unfolding loadBinaryResource_def
  using foldl_scrub[of c "initState c" evs] by (simp add: init_scrub)

text \<open>
  C10. Two runs of the same call whose events differ at most in the totals of the
  transport's progress events have the same outcome, the same buffers in the task list and
  the same invocations of the progress callback, with the same arguments: \<open>sizeTotal\<close> is
  written and never read.
\<close>

theorem transport_total_unobservable:
  assumes "map eraseTotal evs1 = map eraseTotal evs2"
  shows "outcome (loadBinaryResource c evs1) = outcome (loadBinaryResource c evs2) \<and>
         map result (tasks (loadBinaryResource c evs1)) = map result (tasks (loadBinaryResource c evs2)) \<and>
         aggregates (trace (loadBinaryResource c evs1)) = aggregates (trace (loadBinaryResource c evs2))"
proof -
  have e: "scrub (loadBinaryResource c evs1) = scrub (loadBinaryResource c evs2)"
    using assms by (simp add: run_scrub)
  have "outcome (scrub (loadBinaryResource c evs1)) = outcome (scrub (loadBinaryResource c evs2))"
    "map result (tasks (scrub (loadBinaryResource c evs1))) =
     map result (tasks (scrub (loadBinaryResource c evs2)))"
    "aggregates (trace (scrub (loadBinaryResource c evs1))) =
     aggregates (trace (scrub (loadBinaryResource c evs2)))"
    using e by simp_all
  then show ?thesis by (simp add: comp_def)
qed

text \<open>
  Two runs that report the totals 10 and 77 for the same progress event.
\<close>

theorem transport_total_unobservable_witness:
  "map eraseTotal (evsProbes @ [CacheMatch 0 None, Progress 0 5 10])
     = map eraseTotal (evsProbes @ [CacheMatch 0 None, Progress 0 5 77]) \<and>
   sizeTotal (tasks (loadBinaryResource cfgThreeCached
     (evsProbes @ [CacheMatch 0 None, Progress 0 5 10])) ! 0) = 10 \<and>
   sizeTotal (tasks (loadBinaryResource cfgThreeCached
     (evsProbes @ [CacheMatch 0 None, Progress 0 5 77])) ! 0) = 77 \<and>
   aggregates (trace (loadBinaryResource cfgThreeCached
     (evsProbes @ [CacheMatch 0 None, Progress 0 5 77]))) = [(5, Num 60)]"
proof -
  have h: "map eraseTotal (evsProbes @ [CacheMatch 0 None, Progress 0 5 10])
     = map eraseTotal (evsProbes @ [CacheMatch 0 None, Progress 0 5 77])"
    by simp
  have a: "aggregates (trace (loadBinaryResource cfgThreeCached
     (evsProbes @ [CacheMatch 0 None, Progress 0 5 10]))) = [(5, Num 60)]"
    unfolding cfgThreeCached_def evsProbes_def by code_simp
  have t1: "sizeTotal (tasks (loadBinaryResource cfgThreeCached
     (evsProbes @ [CacheMatch 0 None, Progress 0 5 10])) ! 0) = 10"
    unfolding cfgThreeCached_def evsProbes_def by code_simp
  have t2: "sizeTotal (tasks (loadBinaryResource cfgThreeCached
     (evsProbes @ [CacheMatch 0 None, Progress 0 5 77])) ! 0) = 77"
    unfolding cfgThreeCached_def evsProbes_def by code_simp
  from transport_total_unobservable[OF h, of cfgThreeCached] a
  have "aggregates (trace (loadBinaryResource cfgThreeCached
     (evsProbes @ [CacheMatch 0 None, Progress 0 5 77]))) = [(5, Num 60)]"
    by metis
  then show ?thesis using h t1 t2 by blast
qed

end
